theory Spec2Isabelle
  imports Complex_Main "HOL-Library.Sublist"
begin

section \<open>Python strings and the character database\<close>

text \<open>
  A Python \<^verbatim>\<open>str\<close> is a sequence of Unicode code points. The regular expression
  classes \<^verbatim>\<open>\d\<close> and \<^verbatim>\<open>\s\<close> and the conversion \<^verbatim>\<open>float\<close> consult the
  interpreter's character database, which is not part of the repository: it is a
  parameter of the model. \<open>todecimal\<close> is the decimal digit value of a code point
  (\<^verbatim>\<open>\d\<close> matches exactly the code points that have one), \<open>isspace\<close> is the
  white space test.
\<close>

type_synonym ustring = "nat list"

record unicode_db =
  todecimal :: "nat \<Rightarrow> nat option"
  isspace :: "nat \<Rightarrow> bool"

definition u :: "string \<Rightarrow> ustring" where
  "u s = map of_char s"

definition euro_sign :: nat where
  "euro_sign = 8364"

section \<open>Regular expressions as \<^verbatim>\<open>re\<close> matches them\<close>

text \<open>
  The constructs the price pattern uses. An atom matches one character: \<^verbatim>\<open>\d\<close>,
  \<^verbatim>\<open>\s\<close>, a literal character, or a letter (given in lower case) that the flag
  \<^verbatim>\<open>re.IGNORECASE\<close> lets match in either case. \<open>repeat l h r\<close> is \<^verbatim>\<open>r{l,h}\<close>.
  All repetitions are greedy.
\<close>

datatype atom = Digit | Space | Lit nat | NoCase nat

fun atom_ok :: "unicode_db \<Rightarrow> atom \<Rightarrow> nat \<Rightarrow> bool" where
  "atom_ok U Digit c = (todecimal U c \<noteq> None)"
| "atom_ok U Space c = isspace U c"
| "atom_ok U (Lit p) c = (c = p)"
| "atom_ok U (NoCase l) c = (c = l \<or> c + 32 = l)"

datatype rx = Eps | Atom atom | Seq rx rx | Alt rx rx | Opt rx | Star rx

fun repeat :: "nat \<Rightarrow> nat \<Rightarrow> rx \<Rightarrow> rx" where
  "repeat 0 0 r = Eps"
| "repeat 0 (Suc h) r = Opt (Seq r (repeat 0 h r))"
| "repeat (Suc l) h r = Seq r (repeat l (h - 1) r)"

text \<open>
  The backtracking search: \<open>rx_match U r s\<close> lists what is left of the input \<open>s\<close>
  after each way of matching \<open>r\<close> at its start, in the order in which \<^verbatim>\<open>re\<close> tries
  them. A greedy repetition tries one more iteration before it tries to stop, an
  alternative tries its left branch first. An iteration of a star that consumes
  nothing is not repeated.
\<close>

fun rx_match :: "unicode_db \<Rightarrow> rx \<Rightarrow> ustring \<Rightarrow> ustring list" where
  "rx_match U Eps s = [s]"
| "rx_match U (Atom a) s =
     (case s of [] \<Rightarrow> [] | c # cs \<Rightarrow> if atom_ok U a c then [cs] else [])"
| "rx_match U (Seq a b) s = concat (map (rx_match U b) (rx_match U a s))"
| "rx_match U (Alt a b) s = rx_match U a s @ rx_match U b s"
| "rx_match U (Opt a) s = rx_match U a s @ [s]"
| "rx_match U (Star a) s =
     concat (map (\<lambda>t. if length t < length s then rx_match U (Star a) t else [])
                 (rx_match U a s)) @ [s]"

declare rx_match.simps(6) [simp del]

text \<open>
  The words a pattern denotes, independently of any search order: the reference
  against which the backtracking search is compared.
\<close>

fun lang :: "unicode_db \<Rightarrow> rx \<Rightarrow> ustring set" where
  "lang U Eps = {[]}"
| "lang U (Atom a) = {[c] | c. atom_ok U a c}"
| "lang U (Seq a b) = {x @ y | x y. x \<in> lang U a \<and> y \<in> lang U b}"
| "lang U (Alt a b) = lang U a \<union> lang U b"
| "lang U (Opt a) = insert [] (lang U a)"
| "lang U (Star a) = {concat ws | ws. set ws \<subseteq> lang U a}"

text \<open>
  One attempt of \<^verbatim>\<open>re\<close> at a fixed start position, for a pattern made of a capturing
  group \<open>g\<close> followed by the rest \<open>t\<close> of the pattern: the first success in the order
  of the search. The result is the text of the group and the input after the match.
\<close>

definition match_here :: "unicode_db \<Rightarrow> rx \<Rightarrow> rx \<Rightarrow> ustring \<Rightarrow> (ustring \<times> ustring) option" where
  "match_here U g t s =
     (case concat (map (\<lambda>m. map (\<lambda>r. (m, r)) (rx_match U t m)) (rx_match U g s)) of
        [] \<Rightarrow> None
      | (m, r) # _ \<Rightarrow> Some (take (length s - length m) s, r))"

text \<open>
  \<^verbatim>\<open>re.findall\<close> for a pattern with one group: the scan goes from left to right, a
  match is looked for at each position in turn, and after a match the scan resumes at
  its end. After an empty match the scan moves on by one character.
\<close>

fun findall :: "unicode_db \<Rightarrow> rx \<Rightarrow> rx \<Rightarrow> ustring \<Rightarrow> ustring list" where
  "findall U g t s =
     (case match_here U g t s of
        None \<Rightarrow> (case s of [] \<Rightarrow> [] | c # cs \<Rightarrow> findall U g t cs)
      | Some (cap, rest) \<Rightarrow>
          cap # (if length rest < length s then findall U g t rest
                 else (case s of [] \<Rightarrow> [] | c # cs \<Rightarrow> findall U g t cs)))"

declare findall.simps [simp del]

section \<open>String operations\<close>

definition replace1 :: "nat \<Rightarrow> ustring \<Rightarrow> ustring \<Rightarrow> ustring" where
  "replace1 old new s = concat (map (\<lambda>c. if c = old then new else [c]) s)"

definition startswith :: "ustring \<Rightarrow> ustring \<Rightarrow> bool" where
  "startswith s p = (take (length p) s = p)"

section \<open>The conversion \<^verbatim>\<open>float\<close>\<close>

text \<open>
  \<^verbatim>\<open>float\<close> of a string either raises \<^verbatim>\<open>ValueError\<close> or returns a number. The
  model returns the exact decimal value the string denotes; Python rounds that value
  to the nearest binary64 number (to an infinity beyond the range), which is outside
  the model. The steps are those of the interpreter: every character outside ASCII is
  replaced by a blank if it is white space, by the ASCII digit of its decimal value if
  it has one, and by a question mark otherwise; white space is stripped at both ends;
  underscores are dropped where they stand between digits; what is left must be
  \<^verbatim>\<open>inf\<close>, \<^verbatim>\<open>infinity\<close> or \<^verbatim>\<open>nan\<close> or a decimal number with optional sign,
  fraction and exponent.
\<close>

datatype exn = ValueError | KeyError ustring | RequestException ustring | HTTPError nat

datatype pyfloat = Finite rat | Infinity bool | NaN

definition to_ascii :: "unicode_db \<Rightarrow> nat \<Rightarrow> nat" where
  "to_ascii U c =
     (if c < 127 then c
      else if isspace U c then 32
      else (case todecimal U c of None \<Rightarrow> 63 | Some d \<Rightarrow> 48 + d))"

definition c_isspace :: "nat \<Rightarrow> bool" where
  "c_isspace c = (c = 32 \<or> (9 \<le> c \<and> c \<le> 13))"

definition c_isdigit :: "nat \<Rightarrow> bool" where
  "c_isdigit c = (48 \<le> c \<and> c \<le> 57)"

definition c_strip :: "ustring \<Rightarrow> ustring" where
  "c_strip s = rev (dropWhile c_isspace (rev (dropWhile c_isspace s)))"

fun drop_underscores :: "nat \<Rightarrow> ustring \<Rightarrow> ustring option" where
  "drop_underscores prev [] = (if prev = 95 then None else Some [])"
| "drop_underscores prev (c # cs) =
     (if c = 95 then (if c_isdigit prev then drop_underscores c cs else None)
      else if prev = 95 \<and> \<not> c_isdigit c then None
      else map_option ((#) c) (drop_underscores c cs))"

definition digits_value :: "ustring \<Rightarrow> nat" where
  "digits_value ds = foldl (\<lambda>a c. 10 * a + (c - 48)) 0 ds"

definition c_lower :: "nat \<Rightarrow> nat" where
  "c_lower c = (if 65 \<le> c \<and> c \<le> 90 then c + 32 else c)"

definition take_sign :: "ustring \<Rightarrow> bool \<times> ustring" where
  "take_sign s = (case s of [] \<Rightarrow> (False, [])
                  | c # cs \<Rightarrow> if c = 45 then (True, cs) else if c = 43 then (False, cs) else (False, s))"

definition scale10 :: "rat \<Rightarrow> bool \<Rightarrow> nat \<Rightarrow> rat" where
  "scale10 x neg e = (if neg then x / 10 ^ e else x * 10 ^ e)"

definition strtod :: "ustring \<Rightarrow> exn + pyfloat" where
  "strtod s =
     (let (neg, r0) = take_sign s; w = map c_lower r0 in
      if w = u ''inf'' \<or> w = u ''infinity'' then Inr (Infinity neg)
      else if w = u ''nan'' then Inr NaN
      else
        let ip = takeWhile c_isdigit r0; r1 = dropWhile c_isdigit r0;
            fp = (case r1 of [] \<Rightarrow> [] | c # cs \<Rightarrow> if c = 46 then takeWhile c_isdigit cs else []);
            r2 = (case r1 of [] \<Rightarrow> [] | c # cs \<Rightarrow> if c = 46 then dropWhile c_isdigit cs else r1);
            m = of_nat (digits_value ip) + of_nat (digits_value fp) / 10 ^ length fp;
            v = (if neg then - m else m)
        in if ip = [] \<and> fp = [] then Inl ValueError
           else (case r2 of
                   [] \<Rightarrow> Inr (Finite v)
                 | e # r3 \<Rightarrow>
                     if e = 101 \<or> e = 69 then
                       (let (eneg, r4) = take_sign r3 in
                        if r4 \<noteq> [] \<and> list_all c_isdigit r4
                        then Inr (Finite (scale10 v eneg (digits_value r4)))
                        else Inl ValueError)
                     else Inl ValueError))"

definition py_float :: "unicode_db \<Rightarrow> ustring \<Rightarrow> exn + pyfloat" where
  "py_float U s =
     (case drop_underscores 0 (c_strip (map (to_ascii U) s)) of
        None \<Rightarrow> Inl ValueError
      | Some t \<Rightarrow> strtod t)"

section \<open>The price extractor\<close>

definition digit :: rx where
  "digit = Atom Digit"

definition word :: "ustring \<Rightarrow> rx" where
  "word w = foldr (\<lambda>c r. Seq (Atom (NoCase c)) r) w Eps"

text \<open>
  The pattern \<^verbatim>\<open>(\d{1,3}(?:\.\d{3})*(?:,\d{2})?)\s*(?:\u20ac|Euro|EUR)\<close>, compiled
  with \<^verbatim>\<open>re.IGNORECASE\<close>: the capturing group and what follows it. Under the flag the
  letters match in either case; the other literals, the euro sign U+20AC among them,
  have no case.
\<close>

definition price_group :: rx where
  "price_group =
     Seq (repeat 1 3 digit)
         (Seq (Star (Seq (Atom (Lit 46)) (repeat 3 3 digit)))
              (Opt (Seq (Atom (Lit 44)) (repeat 2 2 digit))))"

definition price_tail :: rx where
  "price_tail =
     Seq (Star (Atom Space))
         (Alt (Atom (Lit euro_sign)) (Alt (word (u ''euro'')) (word (u ''eur''))))"

text \<open>
  \<open>clean_price\<close> catches \<^verbatim>\<open>ValueError\<close>, the only exception \<^verbatim>\<open>float\<close> raises on
  a string, so it raises nothing itself, and neither does \<open>extract_price\<close>.
\<close>

definition clean_price :: "unicode_db \<Rightarrow> ustring \<Rightarrow> pyfloat option" where
  "clean_price U price_str =
     (let clean = replace1 44 [46] (replace1 46 [] price_str) in
      case py_float U clean of
        Inr x \<Rightarrow> Some x
      | Inl e \<Rightarrow> None)"

definition extract_price :: "unicode_db \<Rightarrow> ustring \<Rightarrow> pyfloat option" where
  "extract_price U text =
     (let matches = findall U price_group price_tail text in
      if matches \<noteq> [] then clean_price U (last matches) else None)"

section \<open>Pages, the network and the outside world\<close>

text \<open>
  A parsed page is represented by what the selectors of the scraper find in it. Of an
  overview page these are the thread entries (\<^verbatim>\<open>div.structItem--thread\<close>) and, in
  each entry, the title link (\<^verbatim>\<open>div.structItem-title a[data-tp-primary]\<close>) with its
  stripped text and its \<^verbatim>\<open>href\<close> attribute. Of a thread page it is the body of the
  first post (\<^verbatim>\<open>article.message-body .bbWrapper\<close>) with its text and its
  \<^verbatim>\<open>img\<close> tags of class \<^verbatim>\<open>bbImage\<close> in document order. An attribute that is
  missing is \<open>None\<close>.
\<close>

record img_tag =
  src :: "ustring option"
  data_url :: "ustring option"

record post_body =
  body_text :: ustring
  bb_images :: "img_tag list"

record anchor =
  anchor_text :: ustring
  href :: "ustring option"

record thread_item =
  title_element :: "anchor option"

record soup =
  thread_items :: "thread_item list"
  first_post :: "post_body option"

text \<open>
  The outcome of \<^verbatim>\<open>requests.get\<close>: an exception, or a response with its status code
  and the page that the HTML parser builds from its text. The network is a function of
  the requests made so far and of the URL requested. Exceptions that are not
  subclasses of \<^verbatim>\<open>Exception\<close> (an interrupt from the keyboard) are outside the model.
\<close>

datatype http_outcome = Raises exn | Response nat soup

type_synonym web = "ustring list \<Rightarrow> ustring \<Rightarrow> http_outcome"

text \<open>
  What the program does to the outside: the URLs it requests, the messages it prints
  (one constructor for each \<^verbatim>\<open>print\<close> of the source) and the contents it writes to
  \<^verbatim>\<open>angebote.html\<close>, each write replacing the file. Writing to the standard output and
  to the file is taken to succeed.
\<close>

datatype diag =
    FetchError ustring exn
  | Start int
  | ScanPage int
  | NoMoreThreads
  | Hit nat ustring
  | NoData
  | Saved nat

record world =
  requests :: "ustring list"
  printed :: "diag list"
  written :: "ustring list"

definition print :: "diag \<Rightarrow> world \<Rightarrow> world" where
  "print d w = w\<lparr>printed := printed w @ [d]\<rparr>"

definition base_url :: ustring where
  "base_url = u ''https://uhrforum.de''"

definition start_url :: ustring where
  "start_url = u ''https://uhrforum.de/forums/angebote.11/''"

definition erlaubte_praefixe :: "ustring list" where
  "erlaubte_praefixe = [u ''[Verkauf]'', u ''[Verkauf-Tausch]'']"

section \<open>The page fetcher\<close>

text \<open>
  \<^verbatim>\<open>Response.raise_for_status\<close> of the requests library raises for the client and
  server error codes and for no other status.
\<close>

definition raise_for_status :: "nat \<Rightarrow> exn + unit" where
  "raise_for_status status =
     (if 400 \<le> status \<and> status < 600 then Inl (HTTPError status) else Inr ())"

text \<open>
  The body of the \<^verbatim>\<open>try\<close> block, then the function with its handler, which catches
  every exception of the body. The pause before the request has no counterpart in
  the model.
\<close>

definition fetch :: "web \<Rightarrow> ustring \<Rightarrow> world \<Rightarrow> exn + soup" where
  "fetch web url w =
     (case web (requests w) url of
        Raises e \<Rightarrow> Inl e
      | Response status page \<Rightarrow>
          (case raise_for_status status of Inl e \<Rightarrow> Inl e | Inr _ \<Rightarrow> Inr page))"

definition get_soup :: "web \<Rightarrow> ustring \<Rightarrow> world \<Rightarrow> (exn + soup option) \<times> world" where
  "get_soup web url w =
     (let w1 = w\<lparr>requests := requests w @ [url]\<rparr> in
      case fetch web url w of
        Inr page \<Rightarrow> (Inr (Some page), w1)
      | Inl e \<Rightarrow> (Inr None, print (FetchError url e) w1))"

section \<open>The thread detail extractor\<close>

text \<open>
  Truth of an optional string as Python sees it, and \<^verbatim>\<open>a or b\<close>.
\<close>

definition truthy :: "ustring option \<Rightarrow> bool" where
  "truthy x = (case x of None \<Rightarrow> False | Some s \<Rightarrow> s \<noteq> [])"

definition py_or :: "ustring option \<Rightarrow> ustring option \<Rightarrow> ustring option" where
  "py_or a b = (if truthy a then a else b)"

fun collect_images :: "img_tag list \<Rightarrow> ustring list \<Rightarrow> ustring list" where
  "collect_images [] images = images"
| "collect_images (img # rest) images =
     (case py_or (src img) (data_url img) of
        None \<Rightarrow> collect_images rest images
      | Some img_url \<Rightarrow>
          if img_url \<noteq> [] then
            collect_images rest
              (images @ [if \<not> startswith img_url (u ''http'') then base_url @ img_url else img_url])
          else collect_images rest images)"

record details =
  price :: "pyfloat option"
  images :: "ustring list"

definition scrape_thread_details ::
    "web \<Rightarrow> unicode_db \<Rightarrow> ustring \<Rightarrow> world \<Rightarrow> (exn + details) \<times> world" where
  "scrape_thread_details web U thread_url w =
     (case get_soup web thread_url w of
        (Inl e, w1) \<Rightarrow> (Inl e, w1)
      | (Inr None, w1) \<Rightarrow> (Inr \<lparr>price = None, images = []\<rparr>, w1)
      | (Inr (Some page), w1) \<Rightarrow>
          (case first_post page of
             None \<Rightarrow> (Inr \<lparr>price = None, images = []\<rparr>, w1)
           | Some post \<Rightarrow>
               (Inr \<lparr>price = extract_price U (body_text post),
                      images = collect_images (take 3 (bb_images post)) []\<rparr>, w1)))"

section \<open>The crawl loop\<close>

text \<open>
  A record of the result list. The fields are the keys \<^verbatim>\<open>Hersteller/Modell\<close>,
  \<^verbatim>\<open>Preis\<close>, \<^verbatim>\<open>Bilder\<close> and \<^verbatim>\<open>Link\<close> of the dictionary.
\<close>

record listing =
  hersteller_modell :: ustring
  preis :: "pyfloat option"
  bilder :: "ustring list"
  link :: ustring

function str_nat :: "nat \<Rightarrow> ustring" where
  "str_nat n = (if n < 10 then [48 + n] else str_nat (n div 10) @ [48 + n mod 10])"
  by pat_completeness auto
termination
  by (relation "measure id") auto

declare str_nat.simps [simp del]

definition str_int :: "int \<Rightarrow> ustring" where
  "str_int i = (if i < 0 then 45 # str_nat (nat (- i)) else str_nat (nat i))"

definition link_html :: "ustring \<Rightarrow> ustring" where
  \<open>link_html url = u ''<a href="'' @ url @ u ''" target="_blank">Link</a>''\<close>

text \<open>
  The \<^verbatim>\<open>for\<close> loop over the thread entries of one overview page. It ends at the
  first entry met with the list full; an entry without title link or with a title
  outside the allowed prefixes is passed over; the subscript \<^verbatim>\<open>['href']\<close> raises
  \<^verbatim>\<open>KeyError\<close> on a link without that attribute.
\<close>

fun process_items ::
    "web \<Rightarrow> unicode_db \<Rightarrow> int \<Rightarrow> thread_item list \<Rightarrow> listing list \<Rightarrow> world
       \<Rightarrow> (exn + listing list) \<times> world" where
  "process_items web U max_results [] threads_data w = (Inr threads_data, w)"
| "process_items web U max_results (item # items) threads_data w =
     (if int (length threads_data) \<ge> max_results then (Inr threads_data, w)
      else
        (case title_element item of
           None \<Rightarrow> process_items web U max_results items threads_data w
         | Some te \<Rightarrow>
             let title = anchor_text te in
             if \<not> list_ex (startswith title) erlaubte_praefixe
             then process_items web U max_results items threads_data w
             else
               (case href te of
                  None \<Rightarrow> (Inl (KeyError (u ''href'')), w)
                | Some h \<Rightarrow>
                    let lnk = base_url @ h;
                        w1 = print (Hit (length threads_data + 1) title) w
                    in (case scrape_thread_details web U lnk w1 of
                          (Inl e, w2) \<Rightarrow> (Inl e, w2)
                        | (Inr d, w2) \<Rightarrow>
                            process_items web U max_results items
                              (threads_data @
                                 [\<lparr>hersteller_modell = title, preis = price d,
                                   bilder = images d, link = link_html lnk\<rparr>])
                              w2))))"

text \<open>
  One turn of the \<^verbatim>\<open>while\<close> loop: either the loop goes on with the next page, or
  it is left, by \<^verbatim>\<open>break\<close> with the result list or by an exception.
\<close>

datatype loop_exit = Next "listing list" world | Stop "exn + listing list" world

definition page_url :: "int \<Rightarrow> ustring" where
  "page_url current_page =
     (if current_page > 1 then start_url @ u ''page-'' @ str_int current_page else start_url)"

definition page_step ::
    "web \<Rightarrow> unicode_db \<Rightarrow> int \<Rightarrow> listing list \<Rightarrow> int \<Rightarrow> world \<Rightarrow> loop_exit" where
  "page_step web U max_results threads_data current_page w =
     (case get_soup web (page_url current_page) (print (ScanPage current_page) w) of
        (Inl e, w1) \<Rightarrow> Stop (Inl e) w1
      | (Inr None, w1) \<Rightarrow> Stop (Inr threads_data) w1
      | (Inr (Some page), w1) \<Rightarrow>
          if thread_items page = [] then Stop (Inr threads_data) (print NoMoreThreads w1)
          else
            (case process_items web U max_results (thread_items page) threads_data w1 of
               (Inl e, w2) \<Rightarrow> Stop (Inl e) w2
             | (Inr data, w2) \<Rightarrow> Next data w2))"

text \<open>
  The loop may run forever (a forum that serves pages without end and without
  qualifying threads): its result is optional, \<open>None\<close> for a run that does not end.
\<close>

partial_function (option) crawl ::
    "web \<Rightarrow> unicode_db \<Rightarrow> int \<Rightarrow> listing list \<Rightarrow> int \<Rightarrow> world
       \<Rightarrow> ((exn + listing list) \<times> world) option" where
  "crawl web U max_results threads_data current_page w =
     (if int (length threads_data) < max_results then
        (case page_step web U max_results threads_data current_page w of
           Stop r w1 \<Rightarrow> Some (r, w1)
         | Next data w1 \<Rightarrow> crawl web U max_results data (current_page + 1) w1)
      else Some (Inr threads_data, w))"

declare crawl.simps [code]

text \<open>
  The state at the head of the loop after a number of complete turns, if the run gets
  that far.
\<close>

fun loop_head ::
    "web \<Rightarrow> unicode_db \<Rightarrow> int \<Rightarrow> nat \<Rightarrow> listing list \<Rightarrow> int \<Rightarrow> world
       \<Rightarrow> (listing list \<times> int \<times> world) option" where
  "loop_head web U max_results 0 threads_data current_page w =
     Some (threads_data, current_page, w)"
| "loop_head web U max_results (Suc n) threads_data current_page w =
     (if int (length threads_data) < max_results then
        (case page_step web U max_results threads_data current_page w of
           Stop r w1 \<Rightarrow> None
         | Next data w1 \<Rightarrow> loop_head web U max_results n data (current_page + 1) w1)
      else None)"

section \<open>The report renderer\<close>

definition thumbnail :: "ustring \<Rightarrow> ustring" where
  \<open>thumbnail url = u ''<img src="'' @ url @ u ''" width="120" style="margin:2px;">''\<close>

definition format_images :: "ustring list \<Rightarrow> ustring" where
  "format_images img_list =
     (if img_list = [] then u ''Keine Bilder'' else concat (map thumbnail img_list))"

text \<open>
  \<^verbatim>\<open>DataFrame.to_html(escape=False, index=False, classes='table table-hover')\<close>: the
  layout is that of pandas, a header row and one row for each row of the frame, cell
  texts unescaped. How pandas prints the price column (numbers and missing values) is a
  parameter: the text of the cell of row \<open>i\<close>, given the column.
\<close>

type_synonym price_format = "pyfloat option list \<Rightarrow> nat \<Rightarrow> ustring"

definition html_row :: "ustring list \<Rightarrow> ustring" where
  \<open>html_row cells =
     u ''    <tr>\<newline>'' @
     concat (map (\<lambda>c. u ''      <td>'' @ c @ u ''</td>\<newline>'') cells) @
     u ''    </tr>\<newline>''\<close>

definition frame_rows :: "price_format \<Rightarrow> listing list \<Rightarrow> ustring list list" where
  "frame_rows fmt data =
     map (\<lambda>i. [hersteller_modell (data ! i), fmt (map preis data) i,
                format_images (bilder (data ! i)), link (data ! i)])
         [0..<length data]"

definition table_head :: ustring where
  \<open>table_head =
     u ''<table border="1" class="dataframe table table-hover">\<newline>'' @
     u ''  <thead>\<newline>'' @
     u ''    <tr style="text-align: right;">\<newline>'' @
     u ''      <th>Hersteller/Modell</th>\<newline>'' @
     u ''      <th>Preis ('' @ [euro_sign] @ u '')</th>\<newline>'' @
     u ''      <th>Bilder</th>\<newline>'' @
     u ''      <th>Link</th>\<newline>'' @
     u ''    </tr>\<newline>'' @
     u ''  </thead>\<newline>'' @
     u ''  <tbody>\<newline>''\<close>

definition table_foot :: ustring where
  \<open>table_foot = u ''  </tbody>\<newline>'' @ u ''</table>''\<close>

definition to_html :: "ustring list list \<Rightarrow> ustring" where
  "to_html rows = table_head @ concat (map html_row rows) @ table_foot"

definition html_content :: "nat \<Rightarrow> ustring \<Rightarrow> ustring" where
  \<open>html_content n html_table = concat
     [u ''\<newline>'',
      u ''        <!DOCTYPE html>\<newline>'',
      u ''        <html lang="de">\<newline>'',
      u ''        <head>\<newline>'',
      u ''            <meta charset="UTF-8">\<newline>'',
      u ''            <title>Uhrforum Marktplatz Scraper</title>\<newline>'',
      u ''            <link rel="stylesheet" href="https://cdn.jsdelivr.net/npm/bootstrap@5.3.0/dist/css/bootstrap.min.css">\<newline>'',
      u ''            <style>\<newline>'',
      u ''                body { padding: 30px; background-color: #f4f7f6; font-family: sans-serif; }\<newline>'',
      u ''                .container-fluid { background: white; padding: 20px; border-radius: 10px; shadow: 0 4px 6px rgba(0,0,0,0.1); }\<newline>'',
      u ''                img { border-radius: 4px; object-fit: cover; height: 80px; }\<newline>'',
      u ''                th { background-color: #343a40 !important; color: white; }\<newline>'',
      u ''                tr:hover { background-color: #f1f1f1; }\<newline>'',
      u ''            </style>\<newline>'',
      u ''        </head>\<newline>'',
      u ''        <body>\<newline>'',
      u ''            <div class="container-fluid">\<newline>'',
      u ''                <h1 class="mb-4">Gefundene Verkaufsanzeigen ('',
      str_nat n,
      u '')</h1>\<newline>'',
      u ''                '',
      html_table,
      u ''\<newline>'',
      u ''            </div>\<newline>'',
      u ''        </body>\<newline>'',
      u ''        </html>\<newline>'',
      u ''        '']\<close>

definition write_file :: "ustring \<Rightarrow> world \<Rightarrow> world" where
  "write_file content w = w\<lparr>written := written w @ [content]\<rparr>"

definition save_to_html :: "price_format \<Rightarrow> listing list \<Rightarrow> world \<Rightarrow> (exn + unit) \<times> world" where
  "save_to_html fmt data w =
     (if data = [] then (Inr (), print NoData w)
      else
        let html_table = to_html (frame_rows fmt data);
            html_content = html_content (length data) html_table
        in (Inr (), print (Saved (length data)) (write_file html_content w)))"

definition run ::
    "web \<Rightarrow> unicode_db \<Rightarrow> price_format \<Rightarrow> int \<Rightarrow> world \<Rightarrow> ((exn + unit) \<times> world) option" where
  "run web U fmt max_results w =
     (case crawl web U max_results [] 1 (print (Start max_results) w) of
        None \<Rightarrow> None
      | Some (Inl e, w1) \<Rightarrow> Some (Inl e, w1)
      | Some (Inr threads_data, w1) \<Rightarrow> Some (save_to_html fmt threads_data w1))"

section \<open>Reference notions for the price extractor\<close>

text \<open>
  What the model assumes of the character database: decimal digit values are below
  ten, the ASCII range is classified as Unicode classifies it, no white space
  character is a decimal digit, and the euro sign is neither.
\<close>

definition wf_db :: "unicode_db \<Rightarrow> bool" where
  "wf_db U \<longleftrightarrow>
     (\<forall>c d. todecimal U c = Some d \<longrightarrow> d < 10) \<and>
     (\<forall>c<128. todecimal U c = (if 48 \<le> c \<and> c \<le> 57 then Some (c - 48) else None)) \<and>
     (\<forall>c<128. isspace U c = (c = 32 \<or> (9 \<le> c \<and> c \<le> 13) \<or> (28 \<le> c \<and> c \<le> 31))) \<and>
     (\<forall>c. isspace U c \<longrightarrow> todecimal U c = None) \<and>
     todecimal U euro_sign = None \<and> \<not> isspace U euro_sign"

definition ascii_db :: unicode_db where
  "ascii_db =
     \<lparr> todecimal = (\<lambda>c. if 48 \<le> c \<and> c \<le> 57 then Some (c - 48) else None),
       isspace = (\<lambda>c. c = 32 \<or> (9 \<le> c \<and> c \<le> 13) \<or> (28 \<le> c \<and> c \<le> 31)) \<rparr>"

text \<open>
  The currency pattern as a set of words, and its occurrences in a text.
\<close>

definition occurs :: "unicode_db \<Rightarrow> rx \<Rightarrow> rx \<Rightarrow> ustring \<Rightarrow> bool" where
  "occurs U g t s \<longleftrightarrow>
     (\<exists>pre x y post. s = pre @ x @ y @ post \<and> x \<in> lang U g \<and> y \<in> lang U t)"

definition has_price :: "unicode_db \<Rightarrow> ustring \<Rightarrow> bool" where
  "has_price U text = occurs U price_group price_tail text"

text \<open>
  The number an amount denotes: the digits before the decimal comma, thousands
  separators skipped, and the digits after it as hundredths.
\<close>

definition decimal_value :: "unicode_db \<Rightarrow> ustring \<Rightarrow> nat" where
  "decimal_value U s = foldl (\<lambda>a d. 10 * a + d) 0 (List.map_filter (todecimal U) s)"

definition amount_value :: "unicode_db \<Rightarrow> ustring \<Rightarrow> rat" where
  "amount_value U g =
     (let ip = takeWhile (\<lambda>c. c \<noteq> 44) g; fp = drop 1 (dropWhile (\<lambda>c. c \<noteq> 44) g)
      in of_nat (decimal_value U ip) + of_nat (decimal_value U fp) / 10 ^ length fp)"


text \<open>
  The characters an amount is made of, and two character databases that classify the
  characters of a text alike.
\<close>

definition grp :: "unicode_db \<Rightarrow> nat \<Rightarrow> bool" where
  "grp U c \<longleftrightarrow> todecimal U c \<noteq> None \<or> c = 46 \<or> c = 44"


section \<open>Reference notions and sample data for the scraper\<close>

text \<open>
  The URL of an image tag as the extractor reads it: the \<^verbatim>\<open>src\<close> attribute if it is
  present and not empty, otherwise the \<^verbatim>\<open>data-url\<close> attribute if that is present
  and not empty. And the URL made absolute.
\<close>

definition chosen_url :: "img_tag \<Rightarrow> ustring option" where
  "chosen_url img =
     (if truthy (src img) then src img
      else if truthy (data_url img) then data_url img else None)"

definition absolute :: "ustring \<Rightarrow> ustring" where
  "absolute r = (if startswith r (u ''http'') then r else base_url @ r)"

definition w0 :: world where
  "w0 = \<lparr>requests = [], printed = [], written = []\<rparr>"

definition empty_page :: soup where
  "empty_page = \<lparr>thread_items = [], first_post = None\<rparr>"

definition web_status :: "nat \<Rightarrow> soup \<Rightarrow> web" where
  "web_status status page = (\<lambda>h url. Response status page)"

definition web_down :: web where
  "web_down = (\<lambda>h url. Raises (RequestException (u ''timed out'')))"

definition sample_post :: post_body where
  "sample_post =
     \<lparr>body_text = u ''VB 5 EUR'',
      bb_images =
        [\<lparr>src = None, data_url = None\<rparr>,
         \<lparr>src = Some (u ''/data/a.jpg''), data_url = None\<rparr>,
         \<lparr>src = Some [], data_url = Some (u ''https://cdn.example/b.jpg'')\<rparr>,
         \<lparr>src = Some (u ''/data/c.jpg''), data_url = None\<rparr>]\<rparr>"

definition thread_page :: soup where
  "thread_page = \<lparr>thread_items = [], first_post = Some sample_post\<rparr>"

definition thread_entry :: "ustring \<Rightarrow> ustring option \<Rightarrow> thread_item" where
  "thread_entry t h = \<lparr>title_element = Some \<lparr>anchor_text = t, href = h\<rparr>\<rparr>"

definition overview_page :: soup where
  "overview_page =
     \<lparr>thread_items =
        [thread_entry (u ''[Verkauf] Rolex'') (Some (u ''/threads/rolex.1/'')),
         thread_entry (u ''[VERKAUF] Rolex'') (Some (u ''/threads/rolex.2/'')),
         \<lparr>title_element = None\<rparr>,
         thread_entry (u ''[Verkauf-Tausch] Omega'') (Some (u ''/threads/omega.3/'')),
         thread_entry (u ''[Verkauf] Seiko'') (Some (u ''/threads/seiko.4/''))],
      first_post = None\<rparr>"


text \<open>
  A forum with one overview page: the request for the second page times out, and
  every thread shows the same page.
\<close>

definition sample_web :: "soup \<Rightarrow> soup \<Rightarrow> web" where
  "sample_web first_page detail_page =
     (\<lambda>h url. if url = start_url then Response 200 first_page
              else if url = page_url 2 then Raises (RequestException (u ''timed out''))
              else Response 200 detail_page)"

definition sample_format :: price_format where
  "sample_format = (\<lambda>col i. case col ! i of None \<Rightarrow> u ''NaN'' | Some x \<Rightarrow> u ''5.0'')"

section \<open>The search against the language of a pattern\<close>

lemma star_langI: "w1 \<in> lang U a \<Longrightarrow> w2 \<in> lang U (Star a) \<Longrightarrow> w1 @ w2 \<in> lang U (Star a)"
proof -
  assume a: "w1 \<in> lang U a" and b: "w2 \<in> lang U (Star a)"
  from b obtain ws where ws: "w2 = concat ws" "set ws \<subseteq> lang U a" by auto
  have "w1 @ w2 = concat (w1 # ws)" using ws by simp
  moreover have "set (w1 # ws) \<subseteq> lang U a" using ws a by simp
  ultimately show ?thesis unfolding lang.simps by blast
qed

lemma star_lang_Nil: "[] \<in> lang U (Star a)"
proof -
  have "[] = concat ([]::ustring list)" "set ([]::ustring list) \<subseteq> lang U a" by simp_all
  then show ?thesis unfolding lang.simps by blast
qed

lemma rx_match_sound: "t \<in> set (rx_match U r s) \<Longrightarrow> \<exists>w. s = w @ t \<and> w \<in> lang U r"
proof (induction U r s arbitrary: t rule: rx_match.induct)
  case (1 U s)
  then show ?case by simp
next
  case (2 U a s)
  then show ?case by (cases s) (auto split: if_splits)
next
  case (3 U a b s)
  from "3.prems" obtain m where m: "m \<in> set (rx_match U a s)" and t: "t \<in> set (rx_match U b m)" by auto
  from "3.IH"(1)[OF m] obtain w1 where w1: "s = w1 @ m" "w1 \<in> lang U a" by blast
  from "3.IH"(2)[OF m t] obtain w2 where w2: "m = w2 @ t" "w2 \<in> lang U b" by blast
  have "s = (w1 @ w2) @ t" using w1 w2 by simp
  moreover have "w1 @ w2 \<in> lang U (Seq a b)" using w1 w2 by auto
  ultimately show ?case by blast
next
  case (4 U a b s)
  from "4.prems" have "t \<in> set (rx_match U a s) \<or> t \<in> set (rx_match U b s)" by simp
  then show ?case using "4.IH" by auto
next
  case (5 U a s)
  from "5.prems" have "t \<in> set (rx_match U a s) \<or> t = s" by auto
  then show ?case using "5.IH" by auto
next
  case (6 U a s)
  from "6.prems" have "(\<exists>m \<in> set (rx_match U a s). length m < length s \<and> t \<in> set (rx_match U (Star a) m)) \<or> t = s"
    unfolding rx_match.simps(6)[of U a s] by (auto split: if_splits)
  then show ?case
  proof
    assume "\<exists>m \<in> set (rx_match U a s). length m < length s \<and> t \<in> set (rx_match U (Star a) m)"
    then obtain m where m: "m \<in> set (rx_match U a s)" and lt: "length m < length s" and t': "t \<in> set (rx_match U (Star a) m)" by blast
    from "6.IH"(1)[OF m] obtain w1 where w1: "s = w1 @ m" "w1 \<in> lang U a" by blast
    from "6.IH"(2)[OF m lt t'] obtain w2 where w2: "m = w2 @ t" "w2 \<in> lang U (Star a)" by blast
    have "w1 @ w2 \<in> lang U (Star a)" using w1 w2 by (intro star_langI)
    moreover have "s = (w1 @ w2) @ t" using w1 w2 by simp
    ultimately show ?thesis by blast
  next
    assume "t = s"
    then show ?thesis using star_lang_Nil[of U a] by (intro exI[of _ "[]"]) simp
  qed
qed

lemma rx_match_complete: "w \<in> lang U r \<Longrightarrow> t \<in> set (rx_match U r (w @ t))"
proof (induction r arbitrary: w t)
  case Eps
  then show ?case by simp
next
  case (Atom a)
  then show ?case by auto
next
  case (Seq a b)
  from Seq.prems obtain x y where w: "w = x @ y" and x: "x \<in> lang U a" and y: "y \<in> lang U b" by auto
  have "y @ t \<in> set (rx_match U a (x @ (y @ t)))" using Seq.IH(1)[OF x] .
  moreover have "t \<in> set (rx_match U b (y @ t))" using Seq.IH(2)[OF y] .
  ultimately show ?case using w by auto
next
  case (Alt a b)
  then show ?case by auto
next
  case (Opt a)
  then show ?case by auto
next
  case (Star a)
  from Star.prems obtain ws where w: "w = concat ws" and ws: "set ws \<subseteq> lang U a" by auto
  from ws have "t \<in> set (rx_match U (Star a) (concat ws @ t))"
  proof (induction ws)
    case Nil
    show ?case unfolding rx_match.simps(6)[of U a "concat [] @ t"] by simp
  next
    case (Cons x xs)
    then have x: "x \<in> lang U a" and ih: "t \<in> set (rx_match U (Star a) (concat xs @ t))" by auto
    show ?case
    proof (cases "x = []")
      case True
      then show ?thesis using ih by simp
    next
      case False
      have m: "concat xs @ t \<in> set (rx_match U a (x @ (concat xs @ t)))" using Star.IH[OF x] .
      have lt: "length (concat xs @ t) < length (x @ (concat xs @ t))" using False by simp
      have "t \<in> set (rx_match U (Star a) (x @ (concat xs @ t)))"
        unfolding rx_match.simps(6)[of U a "x @ (concat xs @ t)"] using m lt ih
        by (auto intro!: bexI[of _ "concat xs @ t"])
      then show ?thesis by simp
    qed
  qed
  then show ?case using w by simp
qed

lemma set_rx_match: "set (rx_match U r s) = {t. \<exists>w. s = w @ t \<and> w \<in> lang U r}"
  using rx_match_sound rx_match_complete by blast


lemma match_here_pairs:
  "set (concat (map (\<lambda>m. map (\<lambda>r. (m, r)) (rx_match U t m)) (rx_match U g s)))
     = {(m, r). \<exists>x y. s = x @ m \<and> m = y @ r \<and> x \<in> lang U g \<and> y \<in> lang U t}"
  by (auto simp: set_rx_match)

lemma match_here_Some:
  assumes "match_here U g t s = Some (cap, rest)"
  shows "\<exists>y. s = cap @ y @ rest \<and> cap \<in> lang U g \<and> y \<in> lang U t"
proof -
  let ?ps = "concat (map (\<lambda>m. map (\<lambda>r. (m, r)) (rx_match U t m)) (rx_match U g s))"
  from assms obtain m ps where ps: "?ps = (m, rest) # ps" and cap: "cap = take (length s - length m) s"
    by (auto simp: match_here_def split: list.splits)
  have "(m, rest) \<in> set ?ps" unfolding ps by simp
  then obtain x y where "s = x @ m" "m = y @ rest" "x \<in> lang U g" "y \<in> lang U t"
    unfolding match_here_pairs by blast
  then show ?thesis using cap by auto
qed

lemma match_here_None:
  "match_here U g t s = None \<longleftrightarrow> \<not> (\<exists>x y r. s = x @ y @ r \<and> x \<in> lang U g \<and> y \<in> lang U t)"
proof -
  let ?ps = "concat (map (\<lambda>m. map (\<lambda>r. (m, r)) (rx_match U t m)) (rx_match U g s))"
  have "match_here U g t s = None \<longleftrightarrow> ?ps = []"
    by (cases ?ps) (simp_all only: match_here_def list.case prod.case option.distinct list.distinct split: prod.splits, auto)
  also have "\<dots> \<longleftrightarrow> set ?ps = {}"
    by (simp only: set_empty)
  also have "\<dots> \<longleftrightarrow> \<not> (\<exists>x y r. s = x @ y @ r \<and> x \<in> lang U g \<and> y \<in> lang U t)"
    unfolding match_here_pairs by blast
  finally show ?thesis .
qed

section \<open>The scan of findall\<close>

lemma occurs_Cons:
  "occurs U g t (c # cs) \<longleftrightarrow> match_here U g t (c # cs) \<noteq> None \<or> occurs U g t cs"
proof
  assume "occurs U g t (c # cs)"
  then obtain pre x y post where s: "c # cs = pre @ x @ y @ post" and x: "x \<in> lang U g" and y: "y \<in> lang U t"
    unfolding occurs_def by blast
  show "match_here U g t (c # cs) \<noteq> None \<or> occurs U g t cs"
  proof (cases pre)
    case Nil
    then have "\<exists>x y r. c # cs = x @ y @ r \<and> x \<in> lang U g \<and> y \<in> lang U t" using s x y by auto
    then show ?thesis unfolding match_here_None by simp
  next
    case (Cons a pre')
    then have "cs = pre' @ x @ y @ post" using s by simp
    then show ?thesis unfolding occurs_def using x y by blast
  qed
next
  assume "match_here U g t (c # cs) \<noteq> None \<or> occurs U g t cs"
  then show "occurs U g t (c # cs)"
  proof
    assume "match_here U g t (c # cs) \<noteq> None"
    then obtain x y r where "c # cs = x @ y @ r" "x \<in> lang U g" "y \<in> lang U t"
      unfolding match_here_None by blast
    then have "c # cs = [] @ x @ y @ r \<and> x \<in> lang U g \<and> y \<in> lang U t" by simp
    then show ?thesis unfolding occurs_def by blast
  next
    assume "occurs U g t cs"
    then obtain pre x y post where "cs = pre @ x @ y @ post" "x \<in> lang U g" "y \<in> lang U t"
      unfolding occurs_def by blast
    then have "c # cs = (c # pre) @ x @ y @ post \<and> x \<in> lang U g \<and> y \<in> lang U t" by simp
    then show ?thesis unfolding occurs_def by blast
  qed
qed

lemma occurs_Nil: "occurs U g t [] \<longleftrightarrow> match_here U g t [] \<noteq> None"
  unfolding occurs_def match_here_None by auto

lemma findall_Nil_iff: "findall U g t s = [] \<longleftrightarrow> \<not> occurs U g t s"
proof (induction s)
  case Nil
  show ?case unfolding occurs_Nil findall.simps[of U g t "[]"]
    by (auto split: option.splits)
next
  case (Cons c cs)
  show ?case unfolding occurs_Cons findall.simps[of U g t "c # cs"] using Cons.IH
    by (auto split: option.splits)
qed

lemma findall_last:
  assumes ne: "\<And>w. w \<in> lang U g \<Longrightarrow> w \<noteq> []"
      and A1: "\<And>y. y \<in> lang U t \<Longrightarrow> y \<noteq> [] \<and> \<not> A (last y)"
      and A2: "\<And>w c. w \<in> lang U g \<Longrightarrow> c \<in> set w \<Longrightarrow> A c"
  shows "findall U g t s \<noteq> [] \<Longrightarrow>
    \<exists>pre cap y post. s = pre @ cap @ y @ post \<and> cap \<in> lang U g \<and> y \<in> lang U t \<and>
       last (findall U g t s) = cap \<and> \<not> occurs U g t post \<and>
       (\<forall>p q. pre = p @ q \<longrightarrow> q \<noteq> [] \<longrightarrow> q @ cap \<notin> lang U g)"
proof (induction s rule: length_induct)
  case (1 s)
  note IH = "1.IH"[rule_format]
  show ?case
  proof (cases "match_here U g t s")
    case None
    with "1.prems" obtain c cs where s: "s = c # cs" and fa: "findall U g t s = findall U g t cs"
      unfolding findall.simps[of U g t s] by (cases s) auto
    from "1.prems" fa have "findall U g t cs \<noteq> []" by simp
    from IH[OF _ this] s obtain pre cap y post where
      cs: "cs = pre @ cap @ y @ post" and cap: "cap \<in> lang U g" and y: "y \<in> lang U t"
      and l: "last (findall U g t cs) = cap" and no: "\<not> occurs U g t post"
      and mx: "\<forall>p q. pre = p @ q \<longrightarrow> q \<noteq> [] \<longrightarrow> q @ cap \<notin> lang U g"
      by auto
    have "\<forall>p q. c # pre = p @ q \<longrightarrow> q \<noteq> [] \<longrightarrow> q @ cap \<notin> lang U g"
    proof (intro allI impI)
      fix p q assume pq: "c # pre = p @ q" and q: "q \<noteq> []"
      show "q @ cap \<notin> lang U g"
      proof (cases p)
        case Nil
        show ?thesis
        proof
          assume "q @ cap \<in> lang U g"
          moreover have "s = (q @ cap) @ y @ post" using s cs pq Nil by simp
          ultimately have "\<exists>x y r. s = x @ y @ r \<and> x \<in> lang U g \<and> y \<in> lang U t" using y by blast
          then show False using None unfolding match_here_None by simp
        qed
      next
        case (Cons a p')
        then have "pre = p' @ q" using pq by simp
        then show ?thesis using mx q by blast
      qed
    qed
    moreover have "s = (c # pre) @ cap @ y @ post" using s cs by simp
    ultimately show ?thesis using cap y l no fa by metis
  next
    case (Some cr)
    obtain cap0 rest where cr: "cr = (cap0, rest)" by (cases cr)
    from match_here_Some[OF Some[unfolded cr]] obtain y0 where
      s: "s = cap0 @ y0 @ rest" and cap0: "cap0 \<in> lang U g" and y0: "y0 \<in> lang U t" by blast
    have lt: "length rest < length s" using s ne[OF cap0] by simp
    have fa: "findall U g t s = cap0 # findall U g t rest"
      unfolding findall.simps[of U g t s] using Some cr lt by simp
    show ?thesis
    proof (cases "findall U g t rest = []")
      case True
      then have "\<not> occurs U g t rest" by (simp add: findall_Nil_iff)
      moreover have "s = [] @ cap0 @ y0 @ rest" using s by simp
      moreover have "last (findall U g t s) = cap0" using fa True by simp
      ultimately show ?thesis using cap0 y0 by blast
    next
      case False
      from IH[OF lt False] obtain pre cap y post where
        r: "rest = pre @ cap @ y @ post" and cap: "cap \<in> lang U g" and y: "y \<in> lang U t"
        and l: "last (findall U g t rest) = cap" and no: "\<not> occurs U g t post"
        and mx: "\<forall>p q. pre = p @ q \<longrightarrow> q \<noteq> [] \<longrightarrow> q @ cap \<notin> lang U g"
        by auto
      have y0ne: "y0 \<noteq> []" and y0A: "\<not> A (last y0)" using A1[OF y0] by auto
      have "\<forall>p q. (cap0 @ y0) @ pre = p @ q \<longrightarrow> q \<noteq> [] \<longrightarrow> q @ cap \<notin> lang U g"
      proof (intro allI impI)
        fix p q assume pq: "(cap0 @ y0) @ pre = p @ q" and q: "q \<noteq> []"
        from pq[symmetric] consider us where "p = (cap0 @ y0) @ us" "us @ q = pre"
          | us where "p @ us = cap0 @ y0" "q = us @ pre" "us \<noteq> []"
          unfolding append_eq_append_conv2[of p q] by (metis append_Nil2 append_Nil)
        then show "q @ cap \<notin> lang U g"
        proof cases
          case 1
          then show ?thesis using mx q by blast
        next
          case 2
          have "last us = last (cap0 @ y0)" using 2(1,3) by (metis last_appendR)
          also have "\<dots> = last y0" using y0ne by simp
          finally have "last y0 \<in> set q" using 2(2,3) by (metis last_in_set Un_iff set_append)
          then show ?thesis using A2[of "q @ cap" "last y0"] y0A by auto
        qed
      qed
      moreover have "s = ((cap0 @ y0) @ pre) @ cap @ y @ post" using s r by simp
      moreover have "last (findall U g t s) = cap" using fa l False by simp
      ultimately show ?thesis using cap y no by metis
    qed
  qed
qed

section \<open>The words of the price pattern\<close>

lemma lang_digit: "lang U digit = {[c] | c. todecimal U c \<noteq> None}"
  by (simp add: digit_def)

lemma lang_price_group_shape:
  assumes "w \<in> lang U price_group"
  shows "\<exists>ip fp. w = ip @ fp \<and> ip \<noteq> [] \<and> todecimal U (hd ip) \<noteq> None \<and>
           (\<forall>c\<in>set ip. todecimal U c \<noteq> None \<or> c = 46) \<and>
           (fp = [] \<or> (\<exists>a b. fp = [44, a, b] \<and> todecimal U a \<noteq> None \<and> todecimal U b \<noteq> None))"
proof -
  let ?D = "\<lambda>c. todecimal U c \<noteq> None"
  have three: "x \<in> lang U (repeat 3 3 digit) \<Longrightarrow> \<forall>c\<in>set x. ?D c" for x
    by (auto simp: numeral_3_eq_3 lang_digit)
  have two: "x \<in> lang U (repeat 2 2 digit) \<Longrightarrow> \<exists>a b. x = [a, b] \<and> ?D a \<and> ?D b" for x
    by (auto simp: numeral_2_eq_2 lang_digit)
  have upto: "x \<in> lang U (repeat 1 3 digit) \<Longrightarrow> x \<noteq> [] \<and> (\<forall>c\<in>set x. ?D c)" for x
    by (auto simp: numeral_3_eq_3 lang_digit)
  have star: "x \<in> lang U (Star (Seq (Atom (Lit 46)) (repeat 3 3 digit))) \<Longrightarrow> \<forall>c\<in>set x. ?D c \<or> c = 46" for x
  proof -
    assume "x \<in> lang U (Star (Seq (Atom (Lit 46)) (repeat 3 3 digit)))"
    then obtain ws where x: "x = concat ws" and ws: "set ws \<subseteq> lang U (Seq (Atom (Lit 46)) (repeat 3 3 digit))"
      unfolding lang.simps(6) by blast
    have "\<forall>c\<in>set v. ?D c \<or> c = 46" if "v \<in> set ws" for v
    proof -
      from that ws obtain a b where "v = a @ b" "a \<in> lang U (Atom (Lit 46))" "b \<in> lang U (repeat 3 3 digit)"
        unfolding lang.simps(3) by blast
      then show ?thesis using three[of b] by auto
    qed
    then show ?thesis unfolding x by auto
  qed
  from assms obtain x y z where w: "w = x @ y @ z" and x: "x \<in> lang U (repeat 1 3 digit)"
    and y: "y \<in> lang U (Star (Seq (Atom (Lit 46)) (repeat 3 3 digit)))"
    and z: "z \<in> lang U (Opt (Seq (Atom (Lit 44)) (repeat 2 2 digit)))"
    unfolding price_group_def lang.simps(3) by blast
  from z have z': "z = [] \<or> (\<exists>a b. z = [44, a, b] \<and> ?D a \<and> ?D b)"
    unfolding lang.simps(5) lang.simps(3) using two by fastforce
  have "w = (x @ y) @ z" using w by simp
  moreover have "x @ y \<noteq> []" using upto[OF x] by simp
  moreover have "?D (hd (x @ y))" using upto[OF x] by (cases x) auto
  moreover have "\<forall>c\<in>set (x @ y). ?D c \<or> c = 46" using upto[OF x] star[OF y] by auto
  ultimately show ?thesis using z' by blast
qed

section \<open>The conversion of digit strings\<close>

lemma to_ascii_digit:
  assumes "wf_db U" "todecimal U c = Some d"
  shows "to_ascii U c = 48 + d" "d < 10"
proof -
  show d: "d < 10" using assms unfolding wf_db_def by blast
  show "to_ascii U c = 48 + d"
  proof (cases "c < 127")
    case True
    then have "c < 128" by simp
    then have "todecimal U c = (if 48 \<le> c \<and> c \<le> 57 then Some (c - 48) else None)"
      using assms(1) unfolding wf_db_def by blast
    with assms(2) have "48 \<le> c" "d = c - 48" by (auto split: if_splits)
    then show ?thesis using True by (simp add: to_ascii_def)
  next
    case False
    have "\<not> isspace U c" using assms unfolding wf_db_def by force
    then show ?thesis using False assms(2) by (simp add: to_ascii_def)
  qed
qed

lemma wf_db_ascii:
  assumes "wf_db U"
  shows "todecimal U 46 = None" "todecimal U 44 = None"
proof -
  have a: "todecimal U c = (if 48 \<le> c \<and> c \<le> 57 then Some (c - 48) else None)" if "c < 128" for c
    using assms that unfolding wf_db_def by blast
  show "todecimal U 46 = None" "todecimal U 44 = None" using a[of 46] a[of 44] by simp_all
qed

lemma replace1_del: "replace1 old [] s = filter (\<lambda>c. c \<noteq> old) s"
  by (induction s) (auto simp: replace1_def)

lemma replace1_chr: "replace1 old [new] s = map (\<lambda>c. if c = old then new else c) s"
  by (induction s) (auto simp: replace1_def)

lemma c_strip_id:
  assumes "s \<noteq> []" "\<not> c_isspace (hd s)" "\<not> c_isspace (last s)"
  shows "c_strip s = s"
proof -
  have 1: "dropWhile c_isspace s = s" using assms(1,2) by (cases s) auto
  have "rev s \<noteq> []" "\<not> c_isspace (hd (rev s))" using assms(1,3) by (simp_all add: hd_rev)
  then have 2: "dropWhile c_isspace (rev s) = rev s" by (cases "rev s") auto
  show ?thesis unfolding c_strip_def 1 2 by simp
qed

lemma drop_underscores_id:
  "prev \<noteq> 95 \<Longrightarrow> 95 \<notin> set s \<Longrightarrow> drop_underscores prev s = Some s"
  by (induction s arbitrary: prev) auto

lemma c_isdigit_facts:
  assumes "c_isdigit c"
  shows "c \<noteq> 45" "c \<noteq> 43" "c \<noteq> 46" "c \<noteq> 95" "c \<noteq> 44" "\<not> c_isspace c" "c_lower c = c" "c \<noteq> 105" "c \<noteq> 110"
  using assms by (auto simp: c_isdigit_def c_isspace_def c_lower_def)

lemma u_words: "u ''inf'' = [105, 110, 102]" "u ''infinity'' = [105, 110, 102, 105, 110, 105, 116, 121]"
  "u ''nan'' = [110, 97, 110]"
  by (simp_all add: u_def)

lemma strtod_decimal:
  assumes D: "D \<noteq> []" "list_all c_isdigit D"
      and F: "F = [] \<and> F' = [] \<or> F = 46 # F' \<and> list_all c_isdigit F'"
  shows "strtod (D @ F) = Inr (Finite (of_nat (digits_value D) + of_nat (digits_value F') / 10 ^ length F'))"
proof -
  obtain d ds where Dc: "D = d # ds" using D(1) by (cases D) auto
  have d: "c_isdigit d" using D(2) Dc by simp
  have sign: "take_sign (D @ F) = (False, D @ F)"
    using c_isdigit_facts(1,2)[OF d] by (simp add: take_sign_def Dc)
  have nw: "map c_lower (D @ F) \<noteq> u ''inf''" "map c_lower (D @ F) \<noteq> u ''infinity''"
           "map c_lower (D @ F) \<noteq> u ''nan''"
    using c_isdigit_facts(7,8,9)[OF d] by (auto simp: Dc u_words)
  have Fnd: "F = [] \<or> \<not> c_isdigit (hd F)" using F by (auto simp: c_isdigit_def)
  have all: "\<forall>x\<in>set D. c_isdigit x" using D(2) by (simp add: list_all_iff)
  have tw: "takeWhile c_isdigit (D @ F) = D"
    using Fnd all by (cases F) (auto simp: takeWhile_append2 intro: takeWhile_eq_all_conv[THEN iffD2])
  have dw: "dropWhile c_isdigit (D @ F) = F"
    using Fnd all by (cases F) (auto simp: dropWhile_append2)
  have allF: "\<forall>x\<in>set F'. c_isdigit x" using F by (auto simp: list_all_iff)
  have fp: "(case F of [] \<Rightarrow> [] | c # cs \<Rightarrow> if c = 46 then takeWhile c_isdigit cs else []) = F'"
    using F allF by (auto simp: takeWhile_eq_all_conv)
  have r2: "(case F of [] \<Rightarrow> [] | c # cs \<Rightarrow> if c = 46 then dropWhile c_isdigit cs else F) = []"
    using F allF by (auto simp: dropWhile_eq_Nil_conv)
  show ?thesis
    unfolding strtod_def sign Let_def prod.case tw dw fp r2 using nw D(1) by simp
qed

lemma decimal_value_digits:
  assumes "wf_db U" "\<forall>c\<in>set xs. todecimal U c \<noteq> None \<or> c = 46"
  shows "decimal_value U xs = digits_value (map (to_ascii U) (filter (\<lambda>c. c \<noteq> 46) xs))"
proof -
  have "foldl (\<lambda>a d. 10 * a + d) a (List.map_filter (todecimal U) xs)
      = foldl (\<lambda>a c. 10 * a + (c - 48)) a (map (to_ascii U) (filter (\<lambda>c. c \<noteq> 46) xs))" for a
    using assms(2)
  proof (induction xs arbitrary: a)
    case Nil
    show ?case by (simp add: map_filter_simps)
  next
    case (Cons x xs)
    show ?case
    proof (cases "todecimal U x")
      case None
      then have "x = 46" using Cons.prems by auto
      then show ?thesis using None Cons by (simp add: map_filter_simps)
    next
      case (Some d)
      then have "x \<noteq> 46" using wf_db_ascii(1)[OF assms(1)] by auto
      moreover have "to_ascii U x - 48 = d" using to_ascii_digit(1)[OF assms(1) Some] by simp
      ultimately show ?thesis using Some Cons by (simp add: map_filter_simps)
    qed
  qed
  then show ?thesis unfolding decimal_value_def digits_value_def .
qed

lemma clean_price_group:
  assumes wf: "wf_db U" and w: "w \<in> lang U price_group"
  shows "clean_price U w = Some (Finite (amount_value U w))"
proof -
  let ?D = "\<lambda>c. todecimal U c \<noteq> None"
  from lang_price_group_shape[OF w] obtain ip fp where
    wsplit: "w = ip @ fp" and ipne: "ip \<noteq> []" and hd: "?D (hd ip)"
    and ipall: "\<forall>c\<in>set ip. ?D c \<or> c = 46"
    and fp: "fp = [] \<or> (\<exists>a b. fp = [44, a, b] \<and> ?D a \<and> ?D b)" by blast
  note n46 = wf_db_ascii(1)[OF wf] and n44 = wf_db_ascii(2)[OF wf]
  define D0 where "D0 = filter (\<lambda>c. c \<noteq> 46) ip"
  define fq where "fq = drop 1 fp"
  have fqD: "\<forall>c\<in>set fq. ?D c" and fpq: "fp = [] \<and> fq = [] \<or> fp = 44 # fq"
    using fp unfolding fq_def by auto
  have D0all: "\<forall>c\<in>set D0. ?D c" using ipall unfolding D0_def by auto
  have "hd ip \<in> set D0" using ipne hd n46 unfolding D0_def by (cases ip) auto
  then have D0ne: "D0 \<noteq> []" by auto
  have fq46: "filter (\<lambda>c. c \<noteq> 46) fq = fq" using fqD n46 by (auto simp: filter_id_conv)
  have fq44: "map (\<lambda>c. if c = 44 then 46 else c) fq = fq" using fqD n44 by (intro map_idI) auto
  have D044: "map (\<lambda>c. if c = 44 then 46 else c) D0 = D0" using D0all n44 by (intro map_idI) auto
  define D where "D = map (to_ascii U) D0"
  define F' where "F' = map (to_ascii U) fq"
  define F where "F = (if fp = [] then [] else 46 # F')"
  have c1: "filter (\<lambda>c. c \<noteq> 46) w = D0 @ fp"
    using fpq unfolding wsplit D0_def by (auto simp: fq46)
  have c2: "map (\<lambda>c. if c = 44 then 46 else c) (D0 @ fp) = D0 @ (if fp = [] then [] else 46 # fq)"
    using fpq by (auto simp: D044 fq44)
  have clean: "map (to_ascii U) (replace1 44 [46] (replace1 46 [] w)) = D @ F"
    unfolding replace1_del replace1_chr c1 c2 D_def F_def F'_def
    by (simp add: to_ascii_def)
  have dig: "c_isdigit (to_ascii U c)" if "?D c" for c
  proof -
    from that obtain d where "todecimal U c = Some d" by auto
    from to_ascii_digit[OF wf this] show ?thesis by (simp add: c_isdigit_def)
  qed
  have Dall: "\<forall>c\<in>set D. c_isdigit c" using D0all dig unfolding D_def by auto
  have F'all: "\<forall>c\<in>set F'. c_isdigit c" using fqD dig unfolding F'_def by auto
  have Dne: "D \<noteq> []" using D0ne unfolding D_def by simp
  have Fshape: "F = [] \<and> F' = [] \<or> F = 46 # F' \<and> list_all c_isdigit F'"
    using fpq F'all unfolding F_def F'_def by (auto simp: list_all_iff)
  have DFall: "\<forall>c\<in>set (D @ F). c_isdigit c \<or> c = 46"
    using Dall F'all unfolding F_def by auto
  have "D @ F \<noteq> []" using Dne by simp
  then have "hd (D @ F) \<in> set (D @ F)" "last (D @ F) \<in> set (D @ F)"
    by (rule hd_in_set, rule last_in_set)
  moreover have "\<not> c_isspace c" if "c \<in> set (D @ F)" for c
  proof -
    from that DFall have "c_isdigit c \<or> c = 46" by blast
    then show ?thesis using c_isdigit_facts(6)[of c] by (auto simp: c_isspace_def)
  qed
  ultimately have ends: "\<not> c_isspace (hd (D @ F))" "\<not> c_isspace (last (D @ F))"
    by blast+
  have strip: "c_strip (D @ F) = D @ F" using c_strip_id[OF _ ends] Dne by simp
  have "95 \<notin> set (D @ F)"
  proof
    assume "95 \<in> set (D @ F)"
    then have "c_isdigit 95 \<or> (95::nat) = 46" using DFall by blast
    then show False by (simp add: c_isdigit_def)
  qed
  then have du: "drop_underscores 0 (D @ F) = Some (D @ F)" by (intro drop_underscores_id) simp_all
  have fl: "py_float U (replace1 44 [46] (replace1 46 [] w))
          = Inr (Finite (of_nat (digits_value D) + of_nat (digits_value F') / 10 ^ length F'))"
    unfolding py_float_def clean strip du option.case
    using strtod_decimal[OF Dne _ Fshape] Dall by (simp add: list_all_iff)
  have ip44: "\<forall>c\<in>set ip. c \<noteq> 44" using ipall n44 by auto
  have tw: "takeWhile (\<lambda>c. c \<noteq> 44) w = ip"
    unfolding wsplit using ip44 fpq by (auto simp: takeWhile_append2 takeWhile_eq_all_conv)
  have dw: "drop 1 (dropWhile (\<lambda>c. c \<noteq> 44) w) = fq"
    unfolding wsplit using ip44 fpq by (auto simp: dropWhile_append2)
  have v1: "decimal_value U ip = digits_value D"
    unfolding D_def D0_def using decimal_value_digits[OF wf ipall] .
  have "decimal_value U fq = digits_value (map (to_ascii U) (filter (\<lambda>c. c \<noteq> 46) fq))"
    using decimal_value_digits[OF wf, of fq] fqD by blast
  then have v2: "decimal_value U fq = digits_value F'" unfolding F'_def fq46 .
  have "amount_value U w = of_nat (digits_value D) + of_nat (digits_value F') / 10 ^ length F'"
    unfolding amount_value_def Let_def tw dw v1 v2 by (simp add: F'_def)
  then show ?thesis unfolding clean_price_def Let_def fl by simp
qed

section \<open>The last match\<close>

lemma u_euro: "u ''euro'' = [101, 117, 114, 111]" "u ''eur'' = [101, 117, 114]"
  by (simp_all add: u_def)

lemma lang_euro_word:
  assumes "cur \<in> lang U (Alt (Atom (Lit euro_sign)) (Alt (word (u ''euro'')) (word (u ''eur''))))"
  shows "cur \<noteq> [] \<and> last cur \<in> {euro_sign, 111, 79, 114, 82}"
proof -
  from assms consider "cur \<in> lang U (Atom (Lit euro_sign))" | "cur \<in> lang U (word (u ''euro''))"
    | "cur \<in> lang U (word (u ''eur''))" unfolding lang.simps(4) by blast
  then show ?thesis
  proof cases
    case 1
    then show ?thesis by auto
  next
    case 2
    then obtain a b c d where "cur = [a, b, c, d]" "d = 111 \<or> d + 32 = 111"
      unfolding word_def u_euro by auto
    then show ?thesis by auto
  next
    case 3
    then obtain a b c where "cur = [a, b, c]" "c = 114 \<or> c + 32 = 114"
      unfolding word_def u_euro by auto
    then show ?thesis by auto
  qed
qed

lemma lang_price_tail_last:
  assumes "y \<in> lang U price_tail"
  shows "y \<noteq> [] \<and> last y \<in> {euro_sign, 111, 79, 114, 82}"
proof -
  from assms obtain sp cur where y: "y = sp @ cur"
    and cur: "cur \<in> lang U (Alt (Atom (Lit euro_sign)) (Alt (word (u ''euro'')) (word (u ''eur''))))"
    unfolding price_tail_def lang.simps(3) by blast
  from lang_euro_word[OF cur] show ?thesis unfolding y by simp
qed

lemma lang_price_group_chars:
  assumes "w \<in> lang U price_group"
  shows "w \<noteq> []" "c \<in> set w \<Longrightarrow> todecimal U c \<noteq> None \<or> c = 46 \<or> c = 44"
proof -
  from lang_price_group_shape[OF assms] obtain ip fp where
    wsplit: "w = ip @ fp" and ipne: "ip \<noteq> []"
    and ipall: "\<forall>c\<in>set ip. todecimal U c \<noteq> None \<or> c = 46"
    and fp: "fp = [] \<or> (\<exists>a b. fp = [44, a, b] \<and> todecimal U a \<noteq> None \<and> todecimal U b \<noteq> None)" by blast
  show "w \<noteq> []" using wsplit ipne by simp
  show "c \<in> set w \<Longrightarrow> todecimal U c \<noteq> None \<or> c = 46 \<or> c = 44"
    using wsplit ipall fp by auto
qed

lemma wf_db_tail_last:
  assumes "wf_db U" "c \<in> {euro_sign, 111, 79, 114, 82}"
  shows "\<not> (todecimal U c \<noteq> None \<or> c = 46 \<or> c = 44)"
proof -
  have e: "todecimal U euro_sign = None" using assms(1) unfolding wf_db_def by blast
  have a: "todecimal U c = (if 48 \<le> c \<and> c \<le> 57 then Some (c - 48) else None)" if "c < 128" for c
    using assms(1) that unfolding wf_db_def by blast
  have "todecimal U 111 = None" "todecimal U 79 = None" "todecimal U 114 = None" "todecimal U 82 = None"
    using a[of 111] a[of 79] a[of 114] a[of 82] by simp_all
  then show ?thesis using assms(2) e by (auto simp: euro_sign_def)
qed


lemma price_findall_last:
  assumes wf: "wf_db U" and ne: "findall U price_group price_tail s \<noteq> []"
  shows "\<exists>pre cap y post. s = pre @ cap @ y @ post \<and> cap \<in> lang U price_group \<and> y \<in> lang U price_tail \<and>
       last (findall U price_group price_tail s) = cap \<and> \<not> occurs U price_group price_tail post \<and>
       (\<forall>p q. pre = p @ q \<longrightarrow> q \<noteq> [] \<longrightarrow> q @ cap \<notin> lang U price_group)"
proof (rule findall_last[where A = "grp U", OF _ _ _ ne])
  show "\<And>w. w \<in> lang U price_group \<Longrightarrow> w \<noteq> []" by (rule lang_price_group_chars(1))
next
  fix y assume y: "y \<in> lang U price_tail"
  from lang_price_tail_last[OF y] have "y \<noteq> []" and l: "last y \<in> {euro_sign, 111, 79, 114, 82}" by simp_all
  from wf_db_tail_last[OF wf l] have "\<not> grp U (last y)" unfolding grp_def .
  with \<open>y \<noteq> []\<close> show "y \<noteq> [] \<and> \<not> grp U (last y)" by simp
next
  fix w c assume "w \<in> lang U price_group" "c \<in> set w"
  then show "grp U c" unfolding grp_def by (rule lang_price_group_chars(2))
qed



lemma extract_price_None:
  assumes "wf_db U"
  shows "extract_price U s = None \<longleftrightarrow> \<not> has_price U s"
proof (cases "findall U price_group price_tail s = []")
  case True
  then show ?thesis unfolding extract_price_def has_price_def Let_def
    using findall_Nil_iff[of U price_group price_tail s] by simp
next
  case False
  from price_findall_last[OF assms False]
  obtain cap where "cap \<in> lang U price_group" "last (findall U price_group price_tail s) = cap"
    by (elim exE conjE)
  then have "extract_price U s \<noteq> None"
    unfolding extract_price_def Let_def using False clean_price_group[OF assms] by simp
  then show ?thesis using False findall_Nil_iff[of U price_group price_tail s]
    unfolding has_price_def by simp
qed

section \<open>Texts classified alike\<close>











section \<open>Properties of the price extractor\<close>

lemma findall_in_lang: "cap \<in> set (findall U g t s) \<Longrightarrow> cap \<in> lang U g"
proof (induction s arbitrary: cap rule: length_induct)
  case (1 s)
  note IH = "1.IH"[rule_format]
  show ?case
  proof (cases "match_here U g t s")
    case None
    with "1.prems" obtain c cs where s: "s = c # cs" and "cap \<in> set (findall U g t cs)"
      unfolding findall.simps[of U g t s] by (cases s) auto
    then show ?thesis using IH[of cs cap] by auto
  next
    case (Some cr)
    obtain cap0 rest where cr: "cr = (cap0, rest)" by (cases cr)
    from match_here_Some[OF Some[unfolded cr]] have c0: "cap0 \<in> lang U g" by auto
    from "1.prems" consider "cap = cap0" | "length rest < length s" "cap \<in> set (findall U g t rest)"
      | c cs where "s = c # cs" "cap \<in> set (findall U g t cs)"
      unfolding findall.simps[of U g t s] Some cr by (cases s) (auto split: if_splits)
    then show ?thesis
    proof cases
      case 1
      then show ?thesis using c0 by simp
    next
      case 2
      then show ?thesis using IH[of rest cap] by blast
    next
      case 3
      then show ?thesis using IH[of cs cap] by auto
    qed
  qed
qed

lemma wf_ascii_db: "wf_db ascii_db"
  unfolding wf_db_def ascii_db_def by (auto simp: euro_sign_def)








text \<open>
  C9. Under the conversion of \<open>clean_price\<close>, \<^verbatim>\<open>float\<close> raises no
  \<^verbatim>\<open>ValueError\<close> on any word the capturing group of the currency pattern can
  match, so every match found in a text converts to a number, and \<open>extract_price\<close>
  returns nothing exactly when no substring of the text matches the pattern.
\<close>

theorem clean_price_total_on_matches:
  assumes "wf_db U"
  shows "(\<forall>g\<in>lang U price_group.
            py_float U (replace1 44 [46] (replace1 46 [] g)) = Inr (Finite (amount_value U g)) \<and>
            clean_price U g = Some (Finite (amount_value U g))) \<and>
         (\<forall>g\<in>set (findall U price_group price_tail s). clean_price U g \<noteq> None) \<and>
         (extract_price U s = None \<longleftrightarrow> \<not> has_price U s)"
proof (intro conjI ballI)
  fix g assume g: "g \<in> lang U price_group"
  show c: "clean_price U g = Some (Finite (amount_value U g))" by (rule clean_price_group[OF assms g])
  then show "py_float U (replace1 44 [46] (replace1 46 [] g)) = Inr (Finite (amount_value U g))"
    unfolding clean_price_def Let_def by (auto split: sum.splits)
next
  fix g assume "g \<in> set (findall U price_group price_tail s)"
  then have "g \<in> lang U price_group" by (rule findall_in_lang)
  then show "clean_price U g \<noteq> None" using clean_price_group[OF assms] by simp
next
  show "extract_price U s = None \<longleftrightarrow> \<not> has_price U s" by (rule extract_price_None[OF assms])
qed

theorem clean_price_total_on_matches_witness:
  "wf_db ascii_db \<and>
   u ''12,50'' \<in> set (findall ascii_db price_group price_tail (u ''VB 12,50 Euro'')) \<and>
   u ''12,50'' \<in> lang ascii_db price_group \<and>
   clean_price ascii_db (u ''12,50'') = Some (Finite (amount_value ascii_db (u ''12,50''))) \<and>
   clean_price ascii_db (u ''12,50'') \<noteq> None \<and>
   has_price ascii_db (u ''VB 12,50 Euro'')"
proof -
  note a = clean_price_total_on_matches[OF wf_ascii_db, of "u ''VB 12,50 Euro''"]
  have m: "u ''12,50'' \<in> set (findall ascii_db price_group price_tail (u ''VB 12,50 Euro''))"
    by code_simp
  have c: "clean_price ascii_db (u ''12,50'') \<noteq> None"
    by (rule bspec[OF a[THEN conjunct2, THEN conjunct1] m])
  have "extract_price ascii_db (u ''VB 12,50 Euro'') \<noteq> None" by code_simp
  then have h: "has_price ascii_db (u ''VB 12,50 Euro'')"
    using a[THEN conjunct2, THEN conjunct2] by simp
  have l: "u ''12,50'' \<in> lang ascii_db price_group" using m by (rule findall_in_lang)
  have v: "clean_price ascii_db (u ''12,50'') = Some (Finite (amount_value ascii_db (u ''12,50'')))"
    using bspec[OF a[THEN conjunct1] l] by (rule conjunct2)
  show ?thesis using m c h l v wf_ascii_db by simp
qed

section \<open>Properties of the fetcher and of the thread detail extractor\<close>

lemma get_soup_result:
  "get_soup web url w =
     (case fetch web url w of
        Inr page \<Rightarrow> (Inr (Some page), w\<lparr>requests := requests w @ [url]\<rparr>)
      | Inl e \<Rightarrow> (Inr None, print (FetchError url e) (w\<lparr>requests := requests w @ [url]\<rparr>)))"
  by (simp add: get_soup_def Let_def)

lemma get_soup_Inr: "\<exists>r w'. get_soup web url w = (Inr r, w')"
  by (simp add: get_soup_result split: sum.splits)

lemma collect_images_eq:
  "collect_images imgs acc = acc @ map absolute (List.map_filter chosen_url imgs)"
proof (induction imgs arbitrary: acc)
  case Nil
  show ?case by (simp add: map_filter_simps)
next
  case (Cons img rest)
  show ?case
    by (cases "src img"; cases "data_url img")
       (auto simp: Cons map_filter_simps chosen_url_def py_or_def truthy_def absolute_def)
qed

lemma chosen_url_attr:
  "chosen_url img = Some r \<Longrightarrow> r \<noteq> [] \<and> (src img = Some r \<or> data_url img = Some r)"
  by (auto simp: chosen_url_def truthy_def split: if_splits option.splits)

lemma length_map_filter_le: "length (List.map_filter f xs) \<le> length xs"
  by (induction xs) (auto simp: map_filter_simps split: option.splits)

lemma set_map_filter: "set (List.map_filter f xs) = {y. \<exists>x\<in>set xs. f x = Some y}"
  by (induction xs) (auto simp: map_filter_simps split: option.splits)


lemma scrape_thread_details_result:
  "scrape_thread_details web U url w =
     (case get_soup web url w of
        (Inr None, w1) \<Rightarrow> (Inr \<lparr>price = None, images = []\<rparr>, w1)
      | (Inr (Some page), w1) \<Rightarrow>
          (case first_post page of
             None \<Rightarrow> (Inr \<lparr>price = None, images = []\<rparr>, w1)
           | Some post \<Rightarrow>
               (Inr \<lparr>price = extract_price U (body_text post),
                      images = map absolute (List.map_filter chosen_url (take 3 (bb_images post)))\<rparr>, w1))
      | (Inl e, w1) \<Rightarrow> (Inl e, w1))"
  by (simp add: scrape_thread_details_def collect_images_eq split: prod.splits sum.splits option.splits)




text \<open>
  C8. If the fetch of the thread page fails, or the page has no first post body,
  \<open>scrape_thread_details\<close> returns the default result, no price and no images, and
  raises nothing.
\<close>

theorem scrape_thread_details_default:
  assumes "fst (get_soup web url w) = Inr None \<or>
           (\<exists>page. fst (get_soup web url w) = Inr (Some page) \<and> first_post page = None)"
  shows "fst (scrape_thread_details web U url w) = Inr \<lparr>price = None, images = []\<rparr>"
  using assms
  by (cases "get_soup web url w") (auto simp: scrape_thread_details_def split: sum.splits option.splits)

theorem scrape_thread_details_default_witness:
  "fst (get_soup web_down start_url w0) = Inr None \<and>
   fst (scrape_thread_details web_down ascii_db start_url w0) = Inr \<lparr>price = None, images = []\<rparr> \<and>
   fst (get_soup (web_status 200 empty_page) start_url w0) = Inr (Some empty_page) \<and>
   first_post empty_page = None \<and>
   fst (scrape_thread_details (web_status 200 empty_page) ascii_db start_url w0)
     = Inr \<lparr>price = None, images = []\<rparr>"
proof -
  have a: "fst (get_soup web_down start_url w0) = Inr None"
    by (simp add: get_soup_def fetch_def web_down_def Let_def)
  have b: "fst (get_soup (web_status 200 empty_page) start_url w0) = Inr (Some empty_page)"
    by (simp add: get_soup_def fetch_def web_status_def raise_for_status_def Let_def)
  have c: "first_post empty_page = None" by (simp add: empty_page_def)
  from a have "fst (scrape_thread_details web_down ascii_db start_url w0) = Inr \<lparr>price = None, images = []\<rparr>"
    by (intro scrape_thread_details_default) simp
  moreover from b c have "fst (scrape_thread_details (web_status 200 empty_page) ascii_db start_url w0)
     = Inr \<lparr>price = None, images = []\<rparr>"
    by (intro scrape_thread_details_default) simp
  ultimately show ?thesis using a b c by simp
qed

text \<open>
  C4. For every thread page \<open>scrape_thread_details\<close> returns, without raising, at most
  three image URLs. Each comes from a non-empty \<^verbatim>\<open>src\<close> or \<^verbatim>\<open>data-url\<close> value of
  one of the first three image tags of the first post: the value itself if it starts
  with \<^verbatim>\<open>http\<close>, and the site base URL followed by the value otherwise.
\<close>

theorem images_at_most_three_and_absolute:
  "\<exists>d w'. scrape_thread_details web U url w = (Inr d, w') \<and> length (images d) \<le> 3 \<and>
     (\<exists>raws. images d = map (\<lambda>r. if startswith r (u ''http'') then r else base_url @ r) raws \<and>
        (\<forall>r\<in>set raws. r \<noteq> [] \<and>
           (\<exists>page post img. fst (get_soup web url w) = Inr (Some page) \<and>
              first_post page = Some post \<and> img \<in> set (take 3 (bb_images post)) \<and>
              (src img = Some r \<or> data_url img = Some r))))"
proof -
  obtain r w1 where g: "get_soup web url w = (Inr r, w1)" using get_soup_Inr by blast
  show ?thesis
  proof (cases "\<exists>page post. r = Some page \<and> first_post page = Some post")
    case False
    then have "scrape_thread_details web U url w = (Inr \<lparr>price = None, images = []\<rparr>, w1)"
      using g by (auto simp: scrape_thread_details_result split: option.splits)
    then show ?thesis by (intro exI[of _ "\<lparr>price = None, images = []\<rparr>"] exI[of _ w1] conjI exI[of _ "[]"]) simp_all
  next
    case True
    then obtain page post where r: "r = Some page" and p: "first_post page = Some post" by blast
    let ?raws = "List.map_filter chosen_url (take 3 (bb_images post))"
    let ?d = "\<lparr>price = extract_price U (body_text post), images = map absolute ?raws\<rparr>"
    have s: "scrape_thread_details web U url w = (Inr ?d, w1)"
      using g r p by (simp add: scrape_thread_details_result)
    have l: "length (images ?d) \<le> 3"
      using length_map_filter_le[of chosen_url "take 3 (bb_images post)"] by simp
    have m: "images ?d = map (\<lambda>r. if startswith r (u ''http'') then r else base_url @ r) ?raws"
      by (simp add: absolute_def[abs_def])
    have o: "\<forall>x\<in>set ?raws. x \<noteq> [] \<and>
           (\<exists>page post img. fst (get_soup web url w) = Inr (Some page) \<and>
              first_post page = Some post \<and> img \<in> set (take 3 (bb_images post)) \<and>
              (src img = Some x \<or> data_url img = Some x))"
    proof
      fix x assume "x \<in> set ?raws"
      then obtain img where i: "img \<in> set (take 3 (bb_images post))" and c: "chosen_url img = Some x"
        unfolding set_map_filter by blast
      from chosen_url_attr[OF c] i g r p
      show "x \<noteq> [] \<and>
           (\<exists>page post img. fst (get_soup web url w) = Inr (Some page) \<and>
              first_post page = Some post \<and> img \<in> set (take 3 (bb_images post)) \<and>
              (src img = Some x \<or> data_url img = Some x))"
        by auto
    qed
    show ?thesis
      by (intro exI[of _ ?d] exI[of _ w1] conjI s l exI[of _ ?raws] m o)
  qed
qed

theorem images_at_most_three_and_absolute_witness:
  "images (projr (fst (scrape_thread_details (web_status 200 thread_page) ascii_db start_url w0)))
     = [u ''https://uhrforum.de/data/a.jpg'', u ''https://cdn.example/b.jpg''] \<and>
   (\<exists>d. fst (scrape_thread_details (web_status 200 thread_page) ascii_db start_url w0) = Inr d \<and>
        length (images d) \<le> 3)"
proof -
  have "images (projr (fst (scrape_thread_details (web_status 200 thread_page) ascii_db start_url w0)))
     = [u ''https://uhrforum.de/data/a.jpg'', u ''https://cdn.example/b.jpg'']"
    by code_simp
  moreover from images_at_most_three_and_absolute[of "web_status 200 thread_page" ascii_db start_url w0]
  have "\<exists>d. fst (scrape_thread_details (web_status 200 thread_page) ascii_db start_url w0) = Inr d \<and>
        length (images d) \<le> 3" by auto
  ultimately show ?thesis by simp
qed

text \<open>
  C10. The images of a thread are taken from the first three image tags of the first
  post only, in document order: the result is the list of their URLs made absolute,
  tags without usable URL left out. A tag whose \<^verbatim>\<open>src\<close> and \<^verbatim>\<open>data-url\<close> are both
  absent yields nothing, and no later tag takes its place: the sample post has four
  image tags, three of them with a usable URL, and two images are returned.
\<close>

theorem images_from_first_three_tags:
  "(fst (get_soup web url w) = Inr (Some page) \<and> first_post page = Some post \<longrightarrow>
      (\<exists>d. fst (scrape_thread_details web U url w) = Inr d \<and>
           images d = map absolute (List.map_filter chosen_url (take 3 (bb_images post))))) \<and>
   (src img = None \<and> data_url img = None \<longrightarrow> chosen_url img = None) \<and>
   length (List.map_filter chosen_url (bb_images sample_post)) = 3 \<and>
   length (images (projr (fst (scrape_thread_details (web_status 200 thread_page) U start_url w0)))) = 2"
proof (intro conjI impI)
  assume a: "fst (get_soup web url w) = Inr (Some page) \<and> first_post page = Some post"
  then show "\<exists>d. fst (scrape_thread_details web U url w) = Inr d \<and>
           images d = map absolute (List.map_filter chosen_url (take 3 (bb_images post)))"
    by (cases "get_soup web url w") (auto simp: scrape_thread_details_result)
next
  assume "src img = None \<and> data_url img = None"
  then show "chosen_url img = None" by (simp add: chosen_url_def truthy_def)
next
  show "length (List.map_filter chosen_url (bb_images sample_post)) = 3"
    by (simp add: sample_post_def map_filter_simps chosen_url_def truthy_def u_def)
next
  have g: "get_soup (web_status 200 thread_page) start_url w0
      = (Inr (Some thread_page), w0\<lparr>requests := requests w0 @ [start_url]\<rparr>)"
    by (simp add: get_soup_def fetch_def web_status_def raise_for_status_def Let_def)
  have p: "first_post thread_page = Some sample_post" by (simp add: thread_page_def)
  have "images (projr (fst (scrape_thread_details (web_status 200 thread_page) U start_url w0)))
      = map absolute (List.map_filter chosen_url (take 3 (bb_images sample_post)))"
    unfolding scrape_thread_details_result g by (simp add: p)
  also have "length \<dots> = 2"
    by (simp add: sample_post_def map_filter_simps chosen_url_def truthy_def u_def)
  finally show "length (images (projr (fst (scrape_thread_details (web_status 200 thread_page) U start_url w0)))) = 2" .
qed

theorem images_from_first_three_tags_witness:
  "fst (get_soup (web_status 200 thread_page) start_url w0) = Inr (Some thread_page) \<and>
   first_post thread_page = Some sample_post \<and>
   (\<exists>d. fst (scrape_thread_details (web_status 200 thread_page) ascii_db start_url w0) = Inr d \<and>
        images d = map absolute (List.map_filter chosen_url (take 3 (bb_images sample_post)))) \<and>
   chosen_url \<lparr>src = None, data_url = None\<rparr> = None"
proof -
  have g: "fst (get_soup (web_status 200 thread_page) start_url w0) = Inr (Some thread_page)"
    by (simp add: get_soup_def fetch_def web_status_def raise_for_status_def Let_def)
  have p: "first_post thread_page = Some sample_post" by (simp add: thread_page_def)
  note t = images_from_first_three_tags[of "web_status 200 thread_page" start_url w0 thread_page sample_post
             ascii_db "\<lparr>src = None, data_url = None\<rparr>"]
  from t g p have "\<exists>d. fst (scrape_thread_details (web_status 200 thread_page) ascii_db start_url w0) = Inr d \<and>
        images d = map absolute (List.map_filter chosen_url (take 3 (bb_images sample_post)))" by blast
  moreover from t have "chosen_url \<lparr>src = None, data_url = None\<rparr> = None" by simp
  ultimately show ?thesis using g p by simp
qed

section \<open>The loop over the entries of a page\<close>

lemma get_soup_world:
  "get_soup web url w = (r, w') \<Longrightarrow> written w' = written w \<and> requests w' = requests w @ [url]"
  by (auto simp: get_soup_result print_def split: sum.splits)

lemma scrape_thread_details_world:
  "scrape_thread_details web U url w = (r, w') \<Longrightarrow>
     written w' = written w \<and> requests w' = requests w @ [url]"
  by (cases "get_soup web url w")
     (auto simp: scrape_thread_details_def dest: get_soup_world split: sum.splits option.splits)

lemma scrape_thread_details_Inr: "\<exists>d w'. scrape_thread_details web U url w = (Inr d, w')"
  using get_soup_Inr[of web url w]
  by (auto simp: scrape_thread_details_def split: sum.splits option.splits)


lemma process_items_skip:
  assumes "int (length threads_data) < max_results"
      and "title_element item = None \<or>
           (\<exists>te. title_element item = Some te \<and> \<not> list_ex (startswith (anchor_text te)) erlaubte_praefixe)"
  shows "process_items web U max_results (item # items) threads_data w
       = process_items web U max_results items threads_data w"
  using assms by (auto simp: Let_def)

lemma process_items_keep:
  assumes "int (length threads_data) < max_results"
      and "title_element item = Some te"
      and "list_ex (startswith (anchor_text te)) erlaubte_praefixe"
      and "href te = Some h"
      and "scrape_thread_details web U (base_url @ h)
             (print (Hit (length threads_data + 1) (anchor_text te)) w) = (Inr d, w2)"
  shows "process_items web U max_results (item # items) threads_data w
       = process_items web U max_results items
           (threads_data @ [\<lparr>hersteller_modell = anchor_text te, preis = price d,
                             bilder = images d, link = link_html (base_url @ h)\<rparr>]) w2"
  using assms by (simp add: Let_def)

lemma process_items_no_href:
  assumes "int (length threads_data) < max_results"
      and "title_element item = Some te"
      and "list_ex (startswith (anchor_text te)) erlaubte_praefixe"
      and "href te = None"
  shows "process_items web U max_results (item # items) threads_data w
       = (Inl (KeyError (u ''href'')), w)"
  using assms by (simp add: Let_def)

lemma process_items_step:
  assumes "int (length threads_data) < max_results"
  shows "(\<forall>items. process_items web U max_results (item # items) threads_data w
                    = process_items web U max_results items threads_data w) \<or>
         (\<exists>e. \<forall>items. process_items web U max_results (item # items) threads_data w = (Inl e, w)) \<or>
         (\<exists>r w2 u. (\<forall>items. process_items web U max_results (item # items) threads_data w
                         = process_items web U max_results items (threads_data @ [r]) w2) \<and>
                    written w2 = written w \<and> requests w2 = requests w @ [u])"
proof (cases "title_element item")
  case None
  then show ?thesis using process_items_skip[OF assms, of item] by blast
next
  case (Some te)
  show ?thesis
  proof (cases "list_ex (startswith (anchor_text te)) erlaubte_praefixe")
    case False
    then show ?thesis using process_items_skip[OF assms, of item] Some by blast
  next
    case True
    show ?thesis
    proof (cases "href te")
      case None
      then show ?thesis using process_items_no_href[OF assms Some True] by blast
    next
      case (Some h)
      obtain d w2 where s: "scrape_thread_details web U (base_url @ h)
             (print (Hit (length threads_data + 1) (anchor_text te)) w) = (Inr d, w2)"
        using scrape_thread_details_Inr by blast
      from scrape_thread_details_world[OF s]
      have "written w2 = written w" "requests w2 = requests w @ [base_url @ h]"
        by (simp_all add: print_def)
      then show ?thesis
        using process_items_keep[OF assms \<open>title_element item = Some te\<close> True Some s] by blast
    qed
  qed
qed

lemma process_items_bound:
  "process_items web U max_results items threads_data w = (Inr data, w') \<Longrightarrow>
     int (length data) \<le> max (int (length threads_data)) max_results \<and>
     length threads_data \<le> length data \<and> written w' = written w"
proof (induction items arbitrary: threads_data w)
  case Nil
  then show ?case by simp
next
  case (Cons item items)
  show ?case
  proof (cases "int (length threads_data) < max_results")
    case False
    then show ?thesis using Cons.prems by simp
  next
    case True
    from process_items_step[OF True, of web U item w]
    consider (skip) "process_items web U max_results (item # items) threads_data w
                    = process_items web U max_results items threads_data w"
      | (raise) e where "process_items web U max_results (item # items) threads_data w = (Inl e, w)"
      | (keep) r w2 where "process_items web U max_results (item # items) threads_data w
                         = process_items web U max_results items (threads_data @ [r]) w2"
                         "written w2 = written w"
      by blast
    then show ?thesis
    proof cases
      case skip
      then show ?thesis using Cons.IH[of threads_data w] Cons.prems by simp
    next
      case (raise e)
      then show ?thesis using Cons.prems by simp
    next
      case (keep r w2)
      from Cons.IH[of "threads_data @ [r]" w2] keep Cons.prems True
      show ?thesis by auto
    qed
  qed
qed


section \<open>The loop over the pages\<close>

lemma page_step_Next:
  assumes "page_step web U max_results threads_data current_page w = Next data w1"
  shows "int (length data) \<le> max (int (length threads_data)) max_results \<and>
         length threads_data \<le> length data \<and> written w1 = written w"
proof -
  obtain r w' where g: "get_soup web (page_url current_page) (print (ScanPage current_page) w) = (r, w')"
    by (cases "get_soup web (page_url current_page) (print (ScanPage current_page) w)")
  from get_soup_world[OF g] have w': "written w' = written w" by (simp add: print_def)
  from assms g have "\<exists>page::soup. process_items web U max_results (thread_items page) threads_data w' = (Inr data, w1)"
    by (auto simp: page_step_def split: sum.splits option.splits if_splits prod.splits intro: exI)
  then obtain page :: soup where
    p: "process_items web U max_results (thread_items page) threads_data w' = (Inr data, w1)" ..
  from process_items_bound[OF p] w' show ?thesis by simp
qed


lemma page_step_fetch_failed:
  assumes "get_soup web (page_url current_page) (print (ScanPage current_page) w) = (Inr None, w1)"
  shows "page_step web U max_results threads_data current_page w = Stop (Inr threads_data) w1"
  using assms by (simp add: page_step_def)

lemma loop_head_bound:
  "loop_head web U max_results n threads_data current_page w = Some (data, page, w1) \<Longrightarrow>
     int (length data) \<le> max (int (length threads_data)) max_results \<and> written w1 = written w"
proof (induction n arbitrary: threads_data current_page w)
  case 0
  then show ?case by simp
next
  case (Suc n)
  from Suc.prems obtain d w2 where
    lt: "int (length threads_data) < max_results"
    and s: "page_step web U max_results threads_data current_page w = Next d w2"
    and l: "loop_head web U max_results n d (current_page + 1) w2 = Some (data, page, w1)"
    by (auto split: if_splits loop_exit.splits)
  from page_step_Next[OF s] Suc.IH[OF l] lt show ?case by auto
qed

lemma loop_head_crawl:
  "loop_head web U max_results n threads_data current_page w = Some (data, page, w1) \<Longrightarrow>
     crawl web U max_results threads_data current_page w = crawl web U max_results data page w1"
proof (induction n arbitrary: threads_data current_page w)
  case 0
  then show ?case by simp
next
  case (Suc n)
  from Suc.prems obtain d w2 where
    lt: "int (length threads_data) < max_results"
    and s: "page_step web U max_results threads_data current_page w = Next d w2"
    and l: "loop_head web U max_results n d (current_page + 1) w2 = Some (data, page, w1)"
    by (auto split: if_splits loop_exit.splits)
  have "crawl web U max_results threads_data current_page w
      = crawl web U max_results d (current_page + 1) w2"
    by (subst crawl.simps) (simp add: lt s)
  then show ?case using Suc.IH[OF l] by simp
qed



section \<open>Properties of the crawl loop\<close>








section \<open>Properties of the end of the run and of the report\<close>

lemma save_to_html_written:
  "written (snd (save_to_html fmt data w)) =
     (if data = [] then written w
      else written w @ [html_content (length data) (to_html (frame_rows fmt data))])"
  by (simp add: save_to_html_def print_def write_file_def Let_def)

lemma save_to_html_Inr: "fst (save_to_html fmt data w) = Inr ()"
  by (simp add: save_to_html_def Let_def)

text \<open>
  C6. If the run has reached the head of the loop with some records and the list not
  yet full, and the fetch of the overview page then fails, the crawl ends with exactly
  these records, the run returns without an exception, and the report is written
  once if there is at least one record and not at all if there is none.
\<close>

theorem overview_fetch_failure_ends_crawl:
  assumes "loop_head web U max_results n [] 1 (print (Start max_results) w)
             = Some (threads_data, current_page, w1)"
      and "int (length threads_data) < max_results"
      and "get_soup web (page_url current_page) (print (ScanPage current_page) w1) = (Inr None, w2)"
  shows "crawl web U max_results [] 1 (print (Start max_results) w) = Some (Inr threads_data, w2) \<and>
         (\<exists>w3. run web U fmt max_results w = Some (Inr (), w3) \<and>
               written w3 =
                 (if threads_data = [] then written w
                  else written w @ [html_content (length threads_data)
                                      (to_html (frame_rows fmt threads_data))]))"
proof -
  have "crawl web U max_results threads_data current_page w1 = Some (Inr threads_data, w2)"
    by (subst crawl.simps) (simp add: assms(2) page_step_fetch_failed[OF assms(3)])
  then have c: "crawl web U max_results [] 1 (print (Start max_results) w) = Some (Inr threads_data, w2)"
    using loop_head_crawl[OF assms(1)] by simp
  have "written w1 = written (print (Start max_results) w)"
    using loop_head_bound[OF assms(1)] by simp
  moreover have "written w2 = written (print (ScanPage current_page) w1)"
    using get_soup_world[OF assms(3)] by simp
  ultimately have w: "written w2 = written w" by (simp add: print_def)
  have r: "run web U fmt max_results w = Some (save_to_html fmt threads_data w2)"
    by (simp add: run_def c)
  obtain x w3 where s: "save_to_html fmt threads_data w2 = (x, w3)"
    by (cases "save_to_html fmt threads_data w2")
  have "x = Inr ()" using save_to_html_Inr[of fmt threads_data w2] s by simp
  moreover have "written w3 =
                 (if threads_data = [] then written w
                  else written w @ [html_content (length threads_data)
                                      (to_html (frame_rows fmt threads_data))])"
    using save_to_html_written[of fmt threads_data w2] s w by simp
  ultimately show ?thesis using c r s by simp
qed

theorem overview_fetch_failure_ends_crawl_witness:
  "(\<exists>w3. run web_down ascii_db sample_format 100 w0 = Some (Inr (), w3) \<and> written w3 = []) \<and>
   (\<exists>d w1 w3. loop_head (sample_web overview_page empty_page) ascii_db 100 1 [] 1 (print (Start 100) w0)
                 = Some (d, 2, w1) \<and> length d = 3 \<and>
      run (sample_web overview_page empty_page) ascii_db sample_format 100 w0 = Some (Inr (), w3) \<and>
      written w3 = [html_content 3 (to_html (frame_rows sample_format d))])"
proof -
  have a1: "loop_head web_down ascii_db 100 0 [] 1 (print (Start 100) w0) = Some ([], 1, print (Start 100) w0)"
    by simp
  have a2: "int (length ([] :: listing list)) < 100" by simp
  obtain r w2 where g: "get_soup web_down (page_url 1) (print (ScanPage 1) (print (Start 100) w0)) = (r, w2)"
    by (cases "get_soup web_down (page_url 1) (print (ScanPage 1) (print (Start 100) w0))")
  then have "r = Inr None" by (auto simp: get_soup_result fetch_def web_down_def)
  with g have a3: "get_soup web_down (page_url 1) (print (ScanPage 1) (print (Start 100) w0)) = (Inr None, w2)"
    by simp
  from overview_fetch_failure_ends_crawl[OF a1 a2 a3, of sample_format]
  have A: "\<exists>w3. run web_down ascii_db sample_format 100 w0 = Some (Inr (), w3) \<and> written w3 = []"
    by (simp add: w0_def)
  have "\<exists>d w1. loop_head (sample_web overview_page empty_page) ascii_db 100 1 [] 1 (print (Start 100) w0)
                 = Some (d, 2, w1) \<and> length d = 3 \<and>
          fst (get_soup (sample_web overview_page empty_page) (page_url 2) (print (ScanPage 2) w1)) = Inr None"
    by (simp add: overview_page_def thread_entry_def erlaubte_praefixe_def startswith_def u_def
          scrape_thread_details_def get_soup_def fetch_def sample_web_def raise_for_status_def
          empty_page_def print_def w0_def base_url_def start_url_def page_url_def page_step_def
          str_int_def str_nat.simps[of 2] Let_def)
  then obtain d w1 where
    b1: "loop_head (sample_web overview_page empty_page) ascii_db 100 1 [] 1 (print (Start 100) w0)
                 = Some (d, 2, w1)" and len: "length d = 3"
    and f: "fst (get_soup (sample_web overview_page empty_page) (page_url 2) (print (ScanPage 2) w1)) = Inr None"
    by blast
  obtain w2' where b3: "get_soup (sample_web overview_page empty_page) (page_url 2) (print (ScanPage 2) w1)
      = (Inr None, w2')"
    using f by (cases "get_soup (sample_web overview_page empty_page) (page_url 2) (print (ScanPage 2) w1)") auto
  have b2: "int (length d) < 100" using len by simp
  from overview_fetch_failure_ends_crawl[OF b1 b2 b3, of sample_format] len
  have "\<exists>w3. run (sample_web overview_page empty_page) ascii_db sample_format 100 w0 = Some (Inr (), w3) \<and>
      written w3 = [html_content 3 (to_html (frame_rows sample_format d))]"
    by (auto simp: w0_def)
  then show ?thesis using A b1 len by blast
qed



end
